theory Spec2Isabelle
  imports Main "HOL-Library.Word" "HOL-Library.Signed_Division"
begin

unbundle bit_operations_syntax

section \<open>Time, durations and the wall clock\<close>

text \<open>
  The generator reads the wall clock through \<open>time.Since\<close> and computes with
  \<open>time.Duration\<close>, a signed 64-bit count of nanoseconds. An instant (\<open>time.Time\<close>) is
  modelled as the integer number of nanoseconds since 1970-01-01T00:00:00Z; a duration
  is a 64-bit word read as two's complement.
\<close>

type_synonym Time = int
type_synonym Duration = "64 word"

definition Millisecond :: Duration where
  "Millisecond = 1000000"

text \<open>Days between 1970-01-01 and a date of the proleptic Gregorian calendar.\<close>

definition daysFromCivil :: "int \<Rightarrow> int \<Rightarrow> int \<Rightarrow> int" where
  "daysFromCivil y m d =
     (let y' = (if m \<le> 2 then y - 1 else y);
          era = y' div 400;
          yoe = y' - era * 400;
          doy = (153 * (if m > 2 then m - 3 else m + 9) + 2) div 5 + d - 1;
          doe = yoe * 365 + yoe div 4 - yoe div 100 + doy
      in era * 146097 + doe - 719468)"

text \<open>\<open>time.Date(year, month, day, hour, min, sec, nsec, time.UTC)\<close> for in-range arguments.\<close>

definition Date :: "int \<Rightarrow> int \<Rightarrow> int \<Rightarrow> int \<Rightarrow> int \<Rightarrow> int \<Rightarrow> int \<Rightarrow> Time" where
  "Date year month day hour minute sec nsec =
     (((daysFromCivil year month day * 24 + hour) * 60 + minute) * 60 + sec) * 1000000000 + nsec"

text \<open>
  \<open>t.Sub(u)\<close>: the difference as a duration, saturated at the largest and the smallest
  value a \<open>Duration\<close> holds. \<open>time.Since(u)\<close> is \<open>time.Now().Sub(u)\<close>; the reading of
  the wall clock is the explicit argument \<open>now\<close>.
\<close>

definition Sub :: "Time \<Rightarrow> Time \<Rightarrow> Duration" where
  "Sub t u =
     (let d = t - u
      in if d > 9223372036854775807 then word_of_int 9223372036854775807
         else if d < - 9223372036854775808 then word_of_int (- 9223372036854775808)
         else word_of_int d)"

definition Since :: "Time \<Rightarrow> Time \<Rightarrow> Duration" where
  "Since now u = Sub now u"

text \<open>\<open>t.Add(d)\<close>: the instant \<open>d\<close> nanoseconds after \<open>t\<close> (\<open>d\<close> read as signed).\<close>

definition Add :: "Time \<Rightarrow> Duration \<Rightarrow> Time" where
  "Add t d = t + sint d"

text \<open>
  Division of two \<open>int64\<close> values in Go truncates towards zero. (A zero divisor panics;
  every registered layout has a non-zero time unit.)
\<close>

definition divDuration :: "Duration \<Rightarrow> Duration \<Rightarrow> Duration" where
  "divDuration a b = word_of_int (sint a sdiv sint b)"

section \<open>Data model\<close>

type_synonym Version = "8 word"

definition Version0 :: Version where
  "Version0 = 0"

datatype error =
    ErrInvalidNodeID
  | ErrInvalidVersion
  | ErrClockRollback
  | ErrSequenceExhausted
  | ErrTimestampOverflow   \<comment> \<open>the unnamed \<open>errors.New("timestamp overflow for version")\<close>\<close>

record VersionLayout =
  Version :: Version
  VersionBits :: "8 word"
  TimeBits :: "8 word"
  NodeBits :: "8 word"
  SequenceBits :: "8 word"
  TimeUnit :: Duration
  Epoch :: Time
  MaxNodeID :: "64 word"
  MaxSequence :: "64 word"
  MaxTimestamp :: "64 word"

text \<open>The registry \<open>versionLayouts\<close>: a map with the single key \<open>Version0\<close>.\<close>

definition versionLayouts :: "Version \<rightharpoonup> VersionLayout" where
  "versionLayouts =
     [Version0 \<mapsto>
        \<lparr> Version = Version0,
          VersionBits = 3,
          TimeBits = 45,
          NodeBits = 8,
          SequenceBits = 8,
          TimeUnit = Millisecond,
          Epoch = Date 2026 1 1 0 0 0 0,
          MaxNodeID = push_bit 8 1 - 1,
          MaxSequence = push_bit 8 1 - 1,
          MaxTimestamp = push_bit 45 1 - 1 \<rparr>]"

record Config =
  Version :: Version
  NodeID :: "64 word"

text \<open>
  The generator's fields. The mutex is not a field of the model: \<open>NextID\<close> holds it from
  entry to return, so calls on one generator run one after the other.
\<close>

record Generator =
  layout :: VersionLayout
  nodeID :: "64 word"
  lastTimestamp :: "64 word"
  sequence :: "64 word"
  versionShift :: "8 word"
  timeShift :: "8 word"
  nodeShift :: "8 word"

record DecodedID =
  Version :: Version
  Timestamp :: "64 word"
  NodeID :: "64 word"
  Sequence :: "64 word"
  Time :: Time

section \<open>Construction\<close>

definition NewGenerator :: "Config \<Rightarrow> error + Generator" where
  "NewGenerator cfg =
     (case versionLayouts (Config.Version cfg) of
        None \<Rightarrow> Inl ErrInvalidVersion
      | Some l \<Rightarrow>
          if Config.NodeID cfg > MaxNodeID l then Inl ErrInvalidNodeID
          else
            let sequenceBits = SequenceBits l;
                nodeBits = NodeBits l;
                timeBits = TimeBits l
            in Inr \<lparr> layout = l,
                     nodeID = Config.NodeID cfg,
                     lastTimestamp = 0,
                     sequence = 0,
                     versionShift = sequenceBits + nodeBits + timeBits,
                     timeShift = sequenceBits + nodeBits,
                     nodeShift = sequenceBits \<rparr>)"

section \<open>Generation\<close>

text \<open>
  The clock is the list of the instants the wall clock shows at the successive readings;
  \<open>currentTimestamp\<close> takes one. \<open>time.Sleep\<close> changes nothing the generator holds.
\<close>

type_synonym clock = "Time list"

definition currentTimestamp :: "Generator \<Rightarrow> Time \<Rightarrow> 64 word" where
  "currentTimestamp g now =
     (let elapsed = Since now (Epoch (layout g))
      in divDuration elapsed (TimeUnit (layout g)))"

text \<open>
  The loop \<open>for timestamp < g.lastTimestamp { sleep; timestamp = g.currentTimestamp() }\<close>.
  A call that is still waiting when the readings end has not returned: \<open>None\<close>.
\<close>

fun rollbackWait :: "Generator \<Rightarrow> 64 word \<Rightarrow> clock \<Rightarrow> (64 word \<times> clock) option" where
  "rollbackWait g timestamp [] =
     (if timestamp < lastTimestamp g then None else Some (timestamp, []))"
| "rollbackWait g timestamp (now # clk) =
     (if timestamp < lastTimestamp g then rollbackWait g (currentTimestamp g now) clk
      else Some (timestamp, now # clk))"

text \<open>The loop of \<open>waitNextTimestamp\<close>, entered with the reading taken before it.\<close>

fun waitLoop :: "Generator \<Rightarrow> 64 word \<Rightarrow> 64 word \<Rightarrow> clock \<Rightarrow> (64 word \<times> clock) option" where
  "waitLoop g lastTs timestamp [] =
     (if timestamp \<le> lastTs then None else Some (timestamp, []))"
| "waitLoop g lastTs timestamp (now # clk) =
     (if timestamp \<le> lastTs then waitLoop g lastTs (currentTimestamp g now) clk
      else Some (timestamp, now # clk))"

fun waitNextTimestamp :: "Generator \<Rightarrow> 64 word \<Rightarrow> clock \<Rightarrow> (64 word \<times> clock) option" where
  "waitNextTimestamp g lastTs [] = None"
| "waitNextTimestamp g lastTs (now # clk) = waitLoop g lastTs (currentTimestamp g now) clk"

text \<open>The encoding expression of \<open>NextID\<close>: \<open>[version][timestamp][nodeID][sequence]\<close>.\<close>

definition encodeID :: "Generator \<Rightarrow> 64 word \<Rightarrow> 64 word" where
  "encodeID g timestamp =
     push_bit (unat (versionShift g)) (ucast (VersionLayout.Version (layout g)))
       OR push_bit (unat (timeShift g)) timestamp
       OR push_bit (unat (nodeShift g)) (nodeID g)
       OR sequence g"

text \<open>The tail of \<open>NextID\<close>: store the timestamp, encode, return.\<close>

definition emit :: "Generator \<Rightarrow> 64 word \<Rightarrow> clock \<Rightarrow> ((error + 64 word) \<times> Generator \<times> clock) option" where
  "emit g timestamp clk =
     (let g' = g\<lparr>lastTimestamp := timestamp\<rparr>
      in Some (Inr (encodeID g' timestamp), g', clk))"

text \<open>
  \<open>NextID\<close> returns its result, the generator after the call and the readings left;
  \<open>None\<close> when the call is still blocked at the end of the readings.
\<close>

fun NextID :: "Generator \<Rightarrow> clock \<Rightarrow> ((error + 64 word) \<times> Generator \<times> clock) option" where
  "NextID g [] = None"
| "NextID g (now # clk) =
     (let timestamp = currentTimestamp g now
      in if timestamp > MaxTimestamp (layout g) then Some (Inl ErrTimestampOverflow, g, clk)
         else
           case rollbackWait g timestamp clk of
             None \<Rightarrow> None
           | Some (timestamp, clk) \<Rightarrow>
               if timestamp = lastTimestamp g then
                 let g = g\<lparr>sequence := (sequence g + 1) AND MaxSequence (layout g)\<rparr>
                 in if sequence g = 0 then
                      (case waitNextTimestamp g timestamp clk of
                         None \<Rightarrow> None
                       | Some (timestamp, clk) \<Rightarrow> emit g timestamp clk)
                    else emit g timestamp clk
               else emit (g\<lparr>sequence := 0\<rparr>) timestamp clk)"

section \<open>Decoding\<close>

definition extractVersion :: "64 word \<Rightarrow> Version \<times> VersionLayout option" where
  "extractVersion ident =
     (let v = (ucast (drop_bit 61 ident AND 0x07) :: Version)
      in (v, versionLayouts v))"

definition Decode :: "64 word \<Rightarrow> error + DecodedID" where
  "Decode ident =
     (case extractVersion ident of
        (version, None) \<Rightarrow> Inl ErrInvalidVersion
      | (version, Some l) \<Rightarrow>
          let timeShift = SequenceBits l + NodeBits l;
              nodeShift = SequenceBits l;
              timestamp = drop_bit (unat timeShift) ident AND MaxTimestamp l;
              nodeID = drop_bit (unat nodeShift) ident AND MaxNodeID l;
              sequence = ident AND MaxSequence l;
              actualTime = Add (Epoch l) (timestamp * TimeUnit l)
          in Inr \<lparr> Version = version,
                   Timestamp = timestamp,
                   NodeID = nodeID,
                   Sequence = sequence,
                   Time = actualTime \<rparr>)"

section \<open>A run of calls\<close>

text \<open>
  \<open>calls n g clk\<close>: the identifiers returned by up to \<open>n\<close> successive calls of \<open>NextID\<close>
  on one generator, in the order of return. A failed call returns no identifier; the
  run ends at a call that does not return.
\<close>

fun calls :: "nat \<Rightarrow> Generator \<Rightarrow> clock \<Rightarrow> 64 word list" where
  "calls 0 g clk = []"
| "calls (Suc n) g clk =
     (case NextID g clk of
        None \<Rightarrow> []
      | Some (Inl e, g', clk') \<Rightarrow> calls n g' clk'
      | Some (Inr ident, g', clk') \<Rightarrow> ident # calls n g' clk')"

section \<open>The generator of the tests\<close>

text \<open>
  The tests create their generator with \<open>Config{Version: Version0, NodeID: 1}\<close>;
  \<open>testGenerator\<close> is the generator \<open>NewGenerator\<close> returns for it.
\<close>

definition testConfig :: Config where
  "testConfig = \<lparr>Config.Version = Version0, Config.NodeID = 1\<rparr>"

definition testGenerator :: Generator where
  "testGenerator =
     \<lparr>layout = \<lparr>VersionLayout.Version = 0, VersionBits = 3, TimeBits = 45, NodeBits = 8,
                SequenceBits = 8, TimeUnit = 1000000, Epoch = 1767225600000000000,
                MaxNodeID = 255, MaxSequence = 255, MaxTimestamp = 35184372088831\<rparr>,
      nodeID = 1, lastTimestamp = 0, sequence = 0,
      versionShift = 61, timeShift = 16, nodeShift = 8\<rparr>"

section \<open>Reachable states\<close>

text \<open>
  \<open>reachable cfg g\<close>: \<open>g\<close> is a state of the generator that \<open>NewGenerator cfg\<close>
  returned, after any number of calls of \<open>NextID\<close> that returned.
\<close>

inductive reachable :: "Config \<Rightarrow> Generator \<Rightarrow> bool" where
  fresh: "NewGenerator cfg = Inr g \<Longrightarrow> reachable cfg g"
| step: "reachable cfg g \<Longrightarrow> NextID g clk = Some (r, g', clk') \<Longrightarrow> reachable cfg g'"

text \<open>
  The ticks \<open>currentTimestamp\<close> can return under a time unit of one millisecond: a
  duration of at most \<open>2^63 - 1\<close> ns is at most 9223372036854 ms, and a negative one,
  converted to \<open>uint64\<close>, lies at most 9223372036854 below \<open>2^64\<close>.
\<close>

definition tickOK :: "64 word \<Rightarrow> bool" where
  "tickOK t \<longleftrightarrow> t \<le> 9223372036854 \<or> 18446734850337514762 \<le> t"

text \<open>The invariant of the reachable states.\<close>

definition genOK :: "Generator \<Rightarrow> bool" where
  "genOK g \<longleftrightarrow>
     versionLayouts (VersionLayout.Version (layout g)) = Some (layout g)
     \<and> nodeID g \<le> MaxNodeID (layout g)
     \<and> sequence g \<le> MaxSequence (layout g)
     \<and> versionShift g = SequenceBits (layout g) + NodeBits (layout g) + TimeBits (layout g)
     \<and> timeShift g = SequenceBits (layout g) + NodeBits (layout g)
     \<and> nodeShift g = SequenceBits (layout g)
     \<and> tickOK (lastTimestamp g)"

text \<open>
  What a successful call changes: the pair \<open>(lastTimestamp, sequence)\<close> grows in the
  lexicographic order, and nothing else changes.
\<close>

definition advanced :: "Generator \<Rightarrow> Generator \<Rightarrow> bool" where
  "advanced g g' \<longleftrightarrow>
     genOK g' \<and> layout g' = layout g \<and> nodeID g' = nodeID g
     \<and> versionShift g' = versionShift g \<and> timeShift g' = timeShift g
     \<and> nodeShift g' = nodeShift g
     \<and> (lastTimestamp g < lastTimestamp g'
        \<or> lastTimestamp g = lastTimestamp g' \<and> sequence g < sequence g')"

text \<open>The timestamp field of an identifier under a layout, as \<open>Decode\<close> extracts it.\<close>

definition timestampOf :: "VersionLayout \<Rightarrow> 64 word \<Rightarrow> 64 word" where
  "timestampOf l ident =
     drop_bit (unat (SequenceBits l + NodeBits l)) ident AND MaxTimestamp l"

section \<open>The registry\<close>

lemma Date_epoch: "Date 2026 1 1 0 0 0 0 = 1767225600000000000"
  by (simp add: Date_def daysFromCivil_def)

lemma registered:
  assumes "versionLayouts v = Some l"
  shows "v = 0 \<and> VersionLayout.Version l = 0 \<and> VersionBits l = 3 \<and> TimeBits l = 45
     \<and> NodeBits l = 8 \<and> SequenceBits l = 8 \<and> TimeUnit l = 1000000
     \<and> Epoch l = 1767225600000000000
     \<and> MaxNodeID l = 255 \<and> MaxSequence l = 255 \<and> MaxTimestamp l = 35184372088831"
  using assms
  by (auto simp: versionLayouts_def Version0_def Millisecond_def Date_epoch split: if_splits)

lemma registered_self:
  assumes "versionLayouts v = Some l"
  shows "versionLayouts (VersionLayout.Version l) = Some l"
  using assms registered [OF assms] by simp

lemma registered_iff: "(\<exists>l. versionLayouts v = Some l) \<longleftrightarrow> v = 0"
  by (auto simp: versionLayouts_def Version0_def)

section \<open>Ticks of the clock\<close>

lemma sdiv_ms_bounds:
  fixes k :: int
  assumes "- 9223372036854775808 \<le> k" "k < 9223372036854775808"
  shows "- 9223372036854 \<le> k sdiv 1000000 \<and> k sdiv 1000000 \<le> 9223372036854"
proof (cases "0 \<le> k")
  case True
  then have eq: "k sdiv 1000000 = k div 1000000"
    by (simp add: signed_divide_int_def sgn_if)
  have "k div 1000000 \<le> 9223372036854775807 div 1000000"
    using assms by (intro zdiv_mono1) simp_all
  moreover have "0 \<le> k div 1000000"
    using True by (simp add: pos_imp_zdiv_nonneg_iff)
  ultimately show ?thesis using eq by simp
next
  case False
  then have eq: "k sdiv 1000000 = - ((- k) div 1000000)"
    by (simp add: signed_divide_int_def sgn_if)
  have "(- k) div 1000000 \<le> 9223372036854775808 div 1000000"
    using assms by (intro zdiv_mono1) simp_all
  moreover have "0 \<le> (- k) div 1000000"
    using False by (simp add: pos_imp_zdiv_nonneg_iff)
  ultimately show ?thesis using eq by simp
qed

lemma tickOK_word_of_int:
  assumes "- 9223372036854 \<le> q" "q \<le> 9223372036854"
  shows "tickOK (word_of_int q)"
proof (cases "0 \<le> q")
  case True
  with assms have "q mod 18446744073709551616 = q"
    by (intro mod_pos_pos_trivial) simp_all
  then have "uint (word_of_int q :: 64 word) = q"
    by (simp add: uint_word_of_int)
  with assms show ?thesis by (simp add: tickOK_def word_le_def)
next
  case False
  have "q mod 18446744073709551616 = (q + 18446744073709551616) mod 18446744073709551616"
    by simp
  also have "\<dots> = q + 18446744073709551616"
    using False assms by (intro mod_pos_pos_trivial) simp_all
  finally have "uint (word_of_int q :: 64 word) = q + 18446744073709551616"
    by (simp add: uint_word_of_int)
  with assms show ?thesis by (simp add: tickOK_def word_le_def)
qed

lemma tickOK_divDuration: "tickOK (divDuration d 1000000)"
proof -
  have "- 9223372036854775808 \<le> sint d" "sint d < 9223372036854775808"
    using sint_ge [of d] sint_lt [of d] by simp_all
  then show ?thesis
    unfolding divDuration_def
    using sdiv_ms_bounds [of "sint d"] tickOK_word_of_int by simp
qed

lemma tickOK_0: "tickOK 0"
  by (simp add: tickOK_def)

section \<open>Bit fields of an identifier\<close>

lemma le255_take_bit: "(x :: 64 word) \<le> 255 \<Longrightarrow> take_bit 8 x = x"
proof -
  assume "x \<le> 255"
  then have "x < 2 ^ 8" by (simp add: word_le_def word_less_def)
  then show ?thesis by (simp add: take_bit_eq_mask less_mask_eq)
qed

lemma uint_split:
  fixes w :: "64 word"
  shows "uint w = uint (drop_bit k w) * 2 ^ k + uint (take_bit k w)"
proof -
  have "uint (drop_bit k w) = drop_bit k (take_bit 64 (uint w))"
    using unsigned_drop_bit_eq [of k w, where ?'a = int] by simp
  also have "\<dots> = uint w div 2 ^ k"
    by (simp add: bintr_uint drop_bit_eq_div)
  finally have d: "uint (drop_bit k w) = uint w div 2 ^ k" .
  have "uint (take_bit k w) = take_bit k (uint w)"
    by (rule unsigned_take_bit_eq)
  then have m: "uint (take_bit k w) = uint w mod 2 ^ k"
    by (simp only: take_bit_eq_mod)
  show ?thesis unfolding d m by (rule div_mult_mod_eq [symmetric])
qed

lemma word_less_split_hi:
  fixes a b :: "64 word"
  assumes "drop_bit k a < drop_bit k b"
  shows "a < b"
proof -
  have lo: "uint (take_bit k a) < 2 ^ k"
    by (simp add: unsigned_take_bit_eq)
  have nonneg: "0 \<le> uint (take_bit k b)" by simp
  have "uint (drop_bit k a) + 1 \<le> uint (drop_bit k b)"
    using assms by (simp add: word_less_def)
  then have "(uint (drop_bit k a) + 1) * 2 ^ k \<le> uint (drop_bit k b) * 2 ^ k"
    by (rule mult_right_mono) simp
  then have hi: "uint (drop_bit k a) * 2 ^ k + 2 ^ k \<le> uint (drop_bit k b) * 2 ^ k"
    by (simp add: algebra_simps)
  have "uint a < uint b"
    using uint_split [of a k] uint_split [of b k] lo nonneg hi by linarith
  then show ?thesis by (simp add: word_less_def)
qed

lemma word_less_split_lo:
  fixes a b :: "64 word"
  assumes "drop_bit k a = drop_bit k b" "take_bit k a < take_bit k b"
  shows "a < b"
proof -
  have "uint a < uint b"
    using uint_split [of a k] uint_split [of b k] assms by (simp add: word_less_def)
  then show ?thesis by (simp add: word_less_def)
qed

lemma fields_hi:
  fixes t n s :: "64 word"
  assumes "n \<le> 255" "s \<le> 255"
  shows "drop_bit 16 (push_bit 16 t OR push_bit 8 n OR s) = take_bit 48 t"
proof -
  have "drop_bit 16 (push_bit 16 t OR push_bit 8 (take_bit 8 n) OR take_bit 8 s) = take_bit 48 t"
    by (rule bit_word_eqI) (auto simp: bit_simps)
  then show ?thesis using assms by (simp add: le255_take_bit)
qed

lemma fields_mid:
  fixes t n s :: "64 word"
  assumes "s \<le> 255"
  shows "drop_bit 8 (push_bit 16 t OR push_bit 8 n OR s) = drop_bit 8 (push_bit 16 t OR push_bit 8 n)"
proof -
  have "drop_bit 8 (push_bit 16 t OR push_bit 8 n OR take_bit 8 s)
      = drop_bit 8 (push_bit 16 t OR push_bit 8 n)"
    by (rule bit_word_eqI) (auto simp: bit_simps)
  then show ?thesis using assms by (simp add: le255_take_bit)
qed

lemma fields_lo:
  fixes t n s :: "64 word"
  assumes "s \<le> 255"
  shows "take_bit 8 (push_bit 16 t OR push_bit 8 n OR s) = s"
proof -
  have "take_bit 8 (push_bit 16 t OR push_bit 8 n OR take_bit 8 s) = take_bit 8 s"
    by (rule bit_word_eqI) (auto simp: bit_simps)
  then show ?thesis using assms by (simp add: le255_take_bit)
qed

lemma uint_take48_lo:
  assumes "(t :: 64 word) \<le> 9223372036854"
  shows "uint (take_bit 48 t) = uint t"
proof -
  have "uint t \<le> 9223372036854" using assms by (simp add: word_le_def)
  then have "uint t mod 281474976710656 = uint t"
    by (intro mod_pos_pos_trivial) simp_all
  moreover have "uint (take_bit 48 t) = uint t mod 2 ^ 48"
    using unsigned_take_bit_eq [of 48 t, where ?'a = int] by (simp only: take_bit_eq_mod)
  ultimately show ?thesis by simp
qed

lemma uint_take48_hi:
  assumes "18446734850337514762 \<le> (t :: 64 word)"
  shows "uint (take_bit 48 t) = uint t - 18446462598732840960"
proof -
  have lo: "18446734850337514762 \<le> uint t" using assms by (simp add: word_le_def)
  have hi: "uint t < 18446744073709551616" using uint_lt2p [of t] by simp
  have "uint t mod 281474976710656
      = (uint t - 18446462598732840960 + 65535 * 281474976710656) mod 281474976710656"
    by simp
  also have "\<dots> = (uint t - 18446462598732840960) mod 281474976710656"
    by (rule mod_mult_self1)
  also have "\<dots> = uint t - 18446462598732840960"
    using lo hi by (intro mod_pos_pos_trivial) simp_all
  finally have "uint t mod 281474976710656 = uint t - 18446462598732840960" .
  moreover have "uint (take_bit 48 t) = uint t mod 2 ^ 48"
    using unsigned_take_bit_eq [of 48 t, where ?'a = int] by (simp only: take_bit_eq_mod)
  ultimately show ?thesis by simp
qed

lemma take48_mono:
  assumes "tickOK t" "tickOK t'" "t < t'"
  shows "take_bit 48 t < take_bit 48 t'"
proof -
  have lt: "uint t < uint t'" using assms(3) by (simp add: word_less_def)
  consider (ll) "t \<le> 9223372036854" "t' \<le> 9223372036854"
    | (lh) "t \<le> 9223372036854" "18446734850337514762 \<le> t'"
    | (hl) "18446734850337514762 \<le> t" "t' \<le> 9223372036854"
    | (hh) "18446734850337514762 \<le> t" "18446734850337514762 \<le> t'"
    using assms(1,2) by (auto simp: tickOK_def)
  then have "uint (take_bit 48 t) < uint (take_bit 48 t')"
  proof cases
    case ll then show ?thesis using lt by (simp add: uint_take48_lo)
  next
    case lh
    then have "uint t \<le> 9223372036854" "18446734850337514762 \<le> uint t'"
      by (simp_all add: word_le_def)
    with lh show ?thesis by (simp add: uint_take48_lo uint_take48_hi)
  next
    case hl
    then have "18446734850337514762 \<le> uint t" "uint t' \<le> 9223372036854"
      by (simp_all add: word_le_def)
    with lt show ?thesis by simp
  next
    case hh then show ?thesis using lt by (simp add: uint_take48_hi)
  qed
  then show ?thesis by (simp add: word_less_def)
qed

section \<open>The invariant and the step of \<open>NextID\<close>\<close>

lemma genOK_D:
  assumes "genOK g"
  shows "VersionLayout.Version (layout g) = 0" "TimeUnit (layout g) = 1000000"
    "MaxNodeID (layout g) = 255" "MaxSequence (layout g) = 255"
    "MaxTimestamp (layout g) = 35184372088831"
    "SequenceBits (layout g) = 8" "NodeBits (layout g) = 8"
    "nodeID g \<le> 255" "sequence g \<le> 255"
    "versionShift g = 61" "timeShift g = 16" "nodeShift g = 8" "tickOK (lastTimestamp g)"
  using assms registered [of "VersionLayout.Version (layout g)" "layout g"]
  by (simp_all add: genOK_def)

lemma tickOK_currentTimestamp: "genOK g \<Longrightarrow> tickOK (currentTimestamp g now)"
  by (simp add: currentTimestamp_def genOK_D tickOK_divDuration)

lemma genOK_NewGenerator: "NewGenerator cfg = Inr g \<Longrightarrow> genOK g"
  by (auto simp: NewGenerator_def genOK_def tickOK_0 Let_def not_less
      split: option.splits if_splits dest: registered_self)

lemma currentTimestamp_sequence [simp]:
  "currentTimestamp (g\<lparr>sequence := s\<rparr>) now = currentTimestamp g now"
  by (simp add: currentTimestamp_def)

lemma genOK_sequence: "genOK g \<Longrightarrow> s \<le> 255 \<Longrightarrow> genOK (g\<lparr>sequence := s\<rparr>)"
  using genOK_D(4) [of g] by (simp add: genOK_def)

lemma genOK_lastTimestamp: "genOK g \<Longrightarrow> tickOK t \<Longrightarrow> genOK (g\<lparr>lastTimestamp := t\<rparr>)"
  by (simp add: genOK_def)

lemma encodeID_genOK:
  "genOK g \<Longrightarrow> encodeID g t = push_bit 16 t OR push_bit 8 (nodeID g) OR sequence g"
  by (simp add: encodeID_def genOK_D)

lemma rollbackWait_Some:
  assumes "rollbackWait g t clk = Some (t', clk')" "genOK g" "tickOK t"
  shows "lastTimestamp g \<le> t' \<and> tickOK t'"
  using assms
  by (induction g t clk rule: rollbackWait.induct)
     (auto simp: tickOK_currentTimestamp not_less split: if_splits)

lemma waitLoop_Some:
  assumes "waitLoop g lastTs t clk = Some (t', clk')" "genOK g" "tickOK t"
  shows "lastTs < t' \<and> tickOK t'"
  using assms
  by (induction g lastTs t clk rule: waitLoop.induct)
     (auto simp: tickOK_currentTimestamp not_le split: if_splits)

lemma waitNextTimestamp_Some:
  assumes "waitNextTimestamp g lastTs clk = Some (t', clk')" "genOK g"
  shows "lastTs < t' \<and> tickOK t'"
  using assms waitLoop_Some [OF _ assms(2) tickOK_currentTimestamp [OF assms(2)]]
  by (cases clk) auto

lemma seq_incr:
  fixes s :: "64 word"
  assumes "s \<le> 255" "(s + 1) AND 255 \<noteq> 0"
  shows "s < (s + 1) AND 255 \<and> (s + 1) AND 255 \<le> 255"
proof -
  have le: "uint s \<le> 255" using assms(1) by (simp add: word_le_def)
  have "s \<noteq> 255" using assms(2) by auto
  then have "uint s \<noteq> 255" by (auto simp: word_uint_eq_iff)
  with le have le': "uint s \<le> 254" by simp
  have "uint (s + 1) = (uint s + 1) mod 18446744073709551616"
    by (simp add: uint_word_ariths)
  also have "\<dots> = uint s + 1"
    using le' by (intro mod_pos_pos_trivial) simp_all
  finally have u: "uint (s + 1) = uint s + 1" .
  have "s + 1 < 2 ^ 8" using u le' by (simp add: word_less_def)
  then have "(s + 1) AND mask 8 = s + 1" by (rule less_mask_eq)
  then have eq: "(s + 1) AND 255 = s + 1" by (simp add: mask_numeral)
  have "s < s + 1" using u by (simp add: word_less_def)
  moreover have "s + 1 \<le> 255" using u le' by (simp add: word_le_def)
  ultimately show ?thesis using eq by simp
qed

lemma encode_less:
  assumes "genOK g" "genOK g'" "nodeID g' = nodeID g"
    and "lastTimestamp g < lastTimestamp g'
         \<or> lastTimestamp g = lastTimestamp g' \<and> sequence g < sequence g'"
  shows "encodeID g (lastTimestamp g) < encodeID g' (lastTimestamp g')"
proof -
  let ?a = "push_bit 16 (lastTimestamp g) OR push_bit 8 (nodeID g) OR sequence g"
  let ?b = "push_bit 16 (lastTimestamp g') OR push_bit 8 (nodeID g) OR sequence g'"
  have n: "nodeID g \<le> 255" and s: "sequence g \<le> 255" and s': "sequence g' \<le> 255"
    using assms(1,2) by (simp_all add: genOK_D)
  have tk: "tickOK (lastTimestamp g)" "tickOK (lastTimestamp g')"
    using assms(1,2) by (simp_all add: genOK_D)
  from assms(4) have "?a < ?b"
  proof
    assume "lastTimestamp g < lastTimestamp g'"
    with tk have "take_bit 48 (lastTimestamp g) < take_bit 48 (lastTimestamp g')"
      by (intro take48_mono)
    then have "drop_bit 16 ?a < drop_bit 16 ?b"
      by (simp only: fields_hi [OF n s] fields_hi [OF n s'])
    then show ?thesis by (rule word_less_split_hi)
  next
    assume eq: "lastTimestamp g = lastTimestamp g' \<and> sequence g < sequence g'"
    have "drop_bit 8 ?a = drop_bit 8 ?b"
      using eq by (simp only: fields_mid [OF s] fields_mid [OF s'])
    moreover have "take_bit 8 ?a < take_bit 8 ?b"
      using eq by (simp only: fields_lo [OF s] fields_lo [OF s'])
    ultimately show ?thesis by (rule word_less_split_lo)
  qed
  then show ?thesis
    using assms(1,2,3) by (simp add: encodeID_genOK)
qed

lemma emit_Some:
  assumes "emit g1 t clk = Some (r, g', clk')"
  shows "r = Inr (encodeID g' (lastTimestamp g')) \<and> g' = g1\<lparr>lastTimestamp := t\<rparr> \<and> clk' = clk"
  using assms by (auto simp: emit_def Let_def)

lemma NextID_cases:
  assumes ok: "genOK g" and run: "NextID g clk = Some (r, g', clk')"
  shows "(r = Inl ErrTimestampOverflow \<and> g' = g)
       \<or> (r = Inr (encodeID g' (lastTimestamp g')) \<and> advanced g g')"
proof (cases clk)
  case Nil
  with run show ?thesis by simp
next
  case (Cons now clk1)
  define t0 where "t0 = currentTimestamp g now"
  have t0: "tickOK t0" using ok by (simp add: t0_def tickOK_currentTimestamp)
  note D = genOK_D [OF ok]
  show ?thesis
  proof (cases "t0 > MaxTimestamp (layout g)")
    case True
    with run Cons show ?thesis by (simp add: t0_def)
  next
    case False
    with run Cons obtain t1 clk2 where rw: "rollbackWait g t0 clk1 = Some (t1, clk2)"
      by (auto simp: t0_def split: option.splits)
    from rollbackWait_Some [OF rw ok t0] have t1: "lastTimestamp g \<le> t1" "tickOK t1"
      by simp_all
    show ?thesis
    proof (cases "t1 = lastTimestamp g")
      case same: True
      define g1 where "g1 = g\<lparr>sequence := (sequence g + 1) AND MaxSequence (layout g)\<rparr>"
      have "(sequence g + 1) AND 255 \<le> 255" by (rule word_and_le1)
      then have ok1: "genOK g1" using ok D by (simp add: g1_def genOK_sequence)
      show ?thesis
      proof (cases "sequence g1 = 0")
        case wrap: True
        with run Cons False rw same obtain t2 clk3
          where w: "waitNextTimestamp g1 t1 clk2 = Some (t2, clk3)"
            and e: "emit g1 t2 clk3 = Some (r, g', clk')"
          by (auto simp: t0_def g1_def Let_def split: option.splits)
        from waitNextTimestamp_Some [OF w ok1] have t2: "t1 < t2" "tickOK t2" by simp_all
        from emit_Some [OF e] have r: "r = Inr (encodeID g' (lastTimestamp g'))"
          and g': "g' = g1\<lparr>lastTimestamp := t2\<rparr>" by simp_all
        have "advanced g g'"
          using t2 same ok1
          by (simp add: advanced_def g' genOK_lastTimestamp) (simp add: g1_def)
        with r show ?thesis by simp
      next
        case nowrap: False
        with run Cons False rw same have e: "emit g1 t1 clk2 = Some (r, g', clk')"
          by (auto simp: t0_def g1_def Let_def split: option.splits)
        from emit_Some [OF e] have r: "r = Inr (encodeID g' (lastTimestamp g'))"
          and g': "g' = g1\<lparr>lastTimestamp := t1\<rparr>" by simp_all
        have "sequence g < (sequence g + 1) AND 255"
          using seq_incr [of "sequence g"] D nowrap by (simp add: g1_def)
        then have "advanced g g'"
          using t1 same ok1 D
          by (simp add: advanced_def g' genOK_lastTimestamp) (simp add: g1_def)
        with r show ?thesis by simp
      qed
    next
      case diff: False
      with run Cons False rw
      have e: "emit (g\<lparr>sequence := 0\<rparr>) t1 clk2 = Some (r, g', clk')"
        by (auto simp: t0_def Let_def split: option.splits)
      from emit_Some [OF e] have r: "r = Inr (encodeID g' (lastTimestamp g'))"
        and g': "g' = g\<lparr>sequence := 0, lastTimestamp := t1\<rparr>" by simp_all
      have "lastTimestamp g < t1" using t1 diff by simp
      then have "advanced g g'"
        using t1 ok by (simp add: advanced_def g' genOK_lastTimestamp genOK_sequence)
      with r show ?thesis by simp
    qed
  qed
qed

lemma NextID_genOK:
  assumes "genOK g" "NextID g clk = Some (r, g', clk')"
  shows "genOK g' \<and> layout g' = layout g \<and> nodeID g' = nodeID g"
  using NextID_cases [OF assms] assms(1) by (auto simp: advanced_def)

lemma reachable_genOK:
  assumes "reachable cfg g"
  shows "genOK g \<and> versionLayouts (Config.Version cfg) = Some (layout g)
       \<and> nodeID g = Config.NodeID cfg"
  using assms
proof (induction rule: reachable.induct)
  case (fresh cfg g)
  then show ?case
    by (auto simp: genOK_NewGenerator)
       (auto simp: NewGenerator_def Let_def split: option.splits if_splits)
next
  case (step cfg g clk r g' clk')
  then show ?case using NextID_genOK [of g clk r g' clk'] by simp
qed

lemma calls_increasing:
  assumes "genOK g"
  shows "sorted_wrt (<) (calls n g clk)
       \<and> (\<forall>x \<in> set (calls n g clk). encodeID g (lastTimestamp g) < x)"
  using assms
proof (induction n arbitrary: g clk)
  case 0
  then show ?case by simp
next
  case (Suc n)
  show ?case
  proof (cases "NextID g clk")
    case None
    then show ?thesis by simp
  next
    case (Some res)
    obtain r g' clk' where res: "res = (r, g', clk')" by (cases res) auto
    from NextID_cases [OF Suc.prems Some [unfolded res]]
    show ?thesis
    proof
      assume "r = Inl ErrTimestampOverflow \<and> g' = g"
      then show ?thesis using Some res Suc.IH [OF Suc.prems, of clk'] by simp
    next
      assume a: "r = Inr (encodeID g' (lastTimestamp g')) \<and> advanced g g'"
      then have ok': "genOK g'" by (simp add: advanced_def)
      have lt: "encodeID g (lastTimestamp g) < encodeID g' (lastTimestamp g')"
        using a Suc.prems by (intro encode_less) (simp_all add: advanced_def)
      from Suc.IH [OF ok', of clk'] lt show ?thesis
        using Some res a by auto
    qed
  qed
qed

section \<open>Decoding an encoded identifier\<close>

lemma top_bits_eq:
  fixes ident :: "64 word"
  shows "(ucast (drop_bit 61 ident AND 7) :: 8 word) = ucast (drop_bit 61 ident)"
proof -
  have "drop_bit 61 ident AND mask 3 = drop_bit 61 ident"
    by (rule bit_word_eqI) (auto simp: bit_simps dest: bit_imp_le_length)
  then show ?thesis by (simp add: mask_numeral)
qed

lemma unat_top_bits:
  fixes ident :: "64 word"
  shows "unat (ucast (drop_bit 61 ident AND 7) :: 8 word) = unat ident div 2 ^ 61"
proof -
  have d: "unat (drop_bit 61 ident) = unat ident div 2 ^ 61"
    using unat_drop_bit_eq [of 61 ident] by (simp only: drop_bit_eq_div)
  have "unat ident < 2 ^ 64" using unsigned_less [of ident] by simp
  then have "unat ident div 2 ^ 61 < 8"
    by (simp add: less_mult_imp_div_less)
  then have "unat (drop_bit 61 ident) mod 256 = unat ident div 2 ^ 61"
    unfolding d by simp
  moreover have "unat (ucast (drop_bit 61 ident) :: 8 word) = unat (drop_bit 61 ident) mod 2 ^ 8"
    using unsigned_ucast_eq [of "drop_bit 61 ident", where ?'a = nat and ?'c = 8]
    by (simp add: take_bit_eq_mod)
  ultimately show ?thesis by (simp add: top_bits_eq)
qed

lemma top_bits_zero_iff:
  fixes ident :: "64 word"
  shows "(ucast (drop_bit 61 ident AND 7) :: 8 word) = 0 \<longleftrightarrow> ident < 2 ^ 61"
proof -
  have "(ucast (drop_bit 61 ident AND 7) :: 8 word) = 0 \<longleftrightarrow> unat ident div 2 ^ 61 = 0"
    using unat_top_bits [of ident] by (simp add: unat_eq_0 [symmetric] del: unat_eq_0)
  also have "\<dots> \<longleftrightarrow> unat ident < 2 ^ 61"
    by (simp add: div_eq_0_iff)
  also have "\<dots> \<longleftrightarrow> ident < 2 ^ 61"
    by (simp add: word_less_nat_alt)
  finally show ?thesis .
qed

lemma Decode_result:
  "Decode ident =
     (if ident < 2 ^ 61 then
        Inr \<lparr>DecodedID.Version = 0,
             Timestamp = drop_bit 16 ident AND 35184372088831,
             NodeID = drop_bit 8 ident AND 255,
             Sequence = ident AND 255,
             Time = 1767225600000000000 + sint ((drop_bit 16 ident AND 35184372088831) * 1000000)\<rparr>
      else Inl ErrInvalidVersion)"
proof (cases "ident < 2 ^ 61")
  case True
  then have v: "(ucast (drop_bit 61 ident AND 7) :: 8 word) = 0"
    by (simp only: top_bits_zero_iff)
  show ?thesis
    unfolding Decode_def extractVersion_def Let_def v
    using True by (simp add: versionLayouts_def Version0_def Millisecond_def Date_epoch Add_def)
next
  case False
  then have "(ucast (drop_bit 61 ident AND 7) :: 8 word) \<noteq> 0"
    by (simp only: top_bits_zero_iff not_False_eq_True)
  then have "versionLayouts (ucast (drop_bit 61 ident AND 7)) = None"
    by (simp add: versionLayouts_def Version0_def)
  with False show ?thesis
    by (simp add: Decode_def extractVersion_def Let_def)
qed

lemma Decode_time_exact:
  assumes "Decode ident = Inr d" "Timestamp d \<le> 9223372036854"
  shows "Time d = Date 2026 1 1 0 0 0 0 + uint (Timestamp d) * 1000000"
proof -
  let ?t = "drop_bit 16 ident AND 35184372088831"
  from assms(1) have d: "Timestamp d = ?t" "Time d = 1767225600000000000 + sint (?t * 1000000)"
    by (auto simp: Decode_result split: if_splits)
  have le: "uint ?t \<le> 9223372036854" using assms(2) d by (simp add: word_le_def)
  have "uint ?t * 1000000 \<le> 9223372036854 * 1000000"
    using le by (intro mult_right_mono) simp_all
  then have b: "uint ?t * 1000000 < 9223372036854775808" by simp
  have "uint (?t * 1000000) = (uint ?t * 1000000) mod 18446744073709551616"
    by (simp add: uint_word_ariths)
  also have "\<dots> = uint ?t * 1000000"
    using b by (intro mod_pos_pos_trivial) simp_all
  finally have u: "uint (?t * 1000000) = uint ?t * 1000000" .
  have "sint (?t * 1000000) = signed_take_bit 63 (uint (?t * 1000000))"
    by (simp add: sint_uint)
  also have "\<dots> = uint ?t * 1000000"
  proof -
    have "- (2 ^ 63) \<le> uint ?t * 1000000"
    proof -
      have "(0 :: int) \<le> uint ?t * 1000000" by simp
      moreover have "- (2 ^ 63) \<le> (0 :: int)" by simp
      ultimately show ?thesis by (rule order_trans [rotated])
    qed
    moreover have "uint ?t * 1000000 < 2 ^ 63" using b by simp
    ultimately show ?thesis unfolding u by (rule signed_take_bit_int_eq_self)
  qed
  finally show ?thesis using d by (simp add: Date_epoch)
qed

lemma le_max45_take_bit: "(t :: 64 word) \<le> 35184372088831 \<Longrightarrow> take_bit 45 t = t"
proof -
  assume "t \<le> 35184372088831"
  then have "t < 2 ^ 45" by (simp add: word_le_def word_less_def)
  then show ?thesis by (simp add: take_bit_eq_mask less_mask_eq)
qed

lemma fields_version:
  fixes t n s :: "64 word"
  assumes "t \<le> 35184372088831" "n \<le> 255" "s \<le> 255"
  shows "drop_bit 61 (push_bit 16 t OR push_bit 8 n OR s) = 0"
proof -
  have "drop_bit 61 (push_bit 16 (take_bit 45 t) OR push_bit 8 (take_bit 8 n) OR take_bit 8 s) = 0"
    by (rule bit_word_eqI) (auto simp: bit_simps)
  then show ?thesis using assms by (simp add: le255_take_bit le_max45_take_bit)
qed

lemma fields_timestamp:
  fixes t n s :: "64 word"
  assumes "n \<le> 255" "s \<le> 255"
  shows "drop_bit 16 (push_bit 16 t OR push_bit 8 n OR s) AND 35184372088831 = take_bit 45 t"
proof -
  have "drop_bit 16 (push_bit 16 t OR push_bit 8 (take_bit 8 n) OR take_bit 8 s) AND mask 45
      = take_bit 45 t"
    by (rule bit_word_eqI) (auto simp: bit_simps)
  then show ?thesis using assms by (simp add: le255_take_bit mask_numeral)
qed

lemma fields_node:
  fixes t n s :: "64 word"
  assumes "n \<le> 255" "s \<le> 255"
  shows "drop_bit 8 (push_bit 16 t OR push_bit 8 n OR s) AND 255 = n"
proof -
  have "drop_bit 8 (push_bit 16 t OR push_bit 8 (take_bit 8 n) OR take_bit 8 s) AND mask 8
      = take_bit 8 n"
    by (rule bit_word_eqI) (auto simp: bit_simps)
  then show ?thesis using assms by (simp add: le255_take_bit mask_numeral)
qed

lemma fields_sequence:
  fixes t n s :: "64 word"
  assumes "s \<le> 255"
  shows "(push_bit 16 t OR push_bit 8 n OR s) AND 255 = s"
proof -
  have "(push_bit 16 t OR push_bit 8 n OR take_bit 8 s) AND mask 8 = take_bit 8 s"
    by (rule bit_word_eqI) (auto simp: bit_simps)
  then show ?thesis using assms by (simp add: le255_take_bit mask_numeral)
qed

lemma Decode_encodeID:
  assumes ok: "genOK g" and t: "t \<le> MaxTimestamp (layout g)"
  shows "Decode (encodeID g t) =
           Inr \<lparr>DecodedID.Version = VersionLayout.Version (layout g), Timestamp = t,
                NodeID = nodeID g, Sequence = sequence g,
                Time = Add (Epoch (layout g)) (t * TimeUnit (layout g))\<rparr>"
proof -
  let ?x = "push_bit 16 t OR push_bit 8 (nodeID g) OR sequence g"
  have n: "nodeID g \<le> 255" and s: "sequence g \<le> 255" and t': "t \<le> 35184372088831"
    using ok t by (simp_all add: genOK_D)
  have l: "versionLayouts 0 = Some (layout g)"
    using ok genOK_D(1) [OF ok] by (simp add: genOK_def)
  have v: "(ucast (drop_bit 61 ?x AND 7) :: 8 word) = 0"
    by (simp only: fields_version [OF t' n s]) simp
  have "Decode ?x =
           Inr \<lparr>DecodedID.Version = 0, Timestamp = t,
                NodeID = nodeID g, Sequence = sequence g,
                Time = Add (Epoch (layout g)) (t * TimeUnit (layout g))\<rparr>"
    unfolding Decode_def extractVersion_def Let_def v
    using fields_timestamp [OF n s, of t] fields_node [OF n s, of t] fields_sequence [OF s, of t "nodeID g"]
    by (simp add: l genOK_D [OF ok] le_max45_take_bit [OF t'])
  then show ?thesis using ok by (simp add: encodeID_genOK genOK_D)
qed

section \<open>The waits return when the clock catches up\<close>

lemma rollbackWait_done:
  "\<not> t < lastTimestamp g \<Longrightarrow> rollbackWait g t clk = Some (t, clk)"
  by (cases clk) simp_all

lemma waitLoop_done:
  "\<not> t \<le> lastTs \<Longrightarrow> waitLoop g lastTs t clk = Some (t, clk)"
  by (cases clk) simp_all

lemma rollbackWait_dropWhile:
  "rollbackWait g t clk =
     (if t < lastTimestamp g then
        (case dropWhile (\<lambda>x. currentTimestamp g x < lastTimestamp g) clk of
           [] \<Rightarrow> None
         | x # rest \<Rightarrow> Some (currentTimestamp g x, rest))
      else Some (t, clk))"
  by (induction g t clk rule: rollbackWait.induct) (auto simp: rollbackWait_done)

lemma waitLoop_dropWhile:
  "waitLoop g lastTs t clk =
     (if t \<le> lastTs then
        (case dropWhile (\<lambda>x. currentTimestamp g x \<le> lastTs) clk of
           [] \<Rightarrow> None
         | x # rest \<Rightarrow> Some (currentTimestamp g x, rest))
      else Some (t, clk))"
  by (induction g lastTs t clk rule: waitLoop.induct) (auto simp: waitLoop_done)

lemma waitNextTimestamp_dropWhile:
  "waitNextTimestamp g lastTs clk =
     (case dropWhile (\<lambda>x. currentTimestamp g x \<le> lastTs) clk of
        [] \<Rightarrow> None
      | x # rest \<Rightarrow> Some (currentTimestamp g x, rest))"
  by (cases clk) (auto simp: waitLoop_dropWhile)

lemma waitLoop_sequence [simp]:
  "waitLoop (g\<lparr>sequence := s\<rparr>) lastTs t clk = waitLoop g lastTs t clk"
  by (induction clk arbitrary: t) simp_all

lemma waitNextTimestamp_sequence [simp]:
  "waitNextTimestamp (g\<lparr>sequence := s\<rparr>) lastTs clk = waitNextTimestamp g lastTs clk"
  by (cases clk) simp_all

lemma rollbackWait_returns:
  assumes "\<exists>x \<in> set clk. lastTimestamp g < currentTimestamp g x"
  shows "\<exists>t1 clk2. rollbackWait g t clk = Some (t1, clk2)
           \<and> (t1 = lastTimestamp g \<longrightarrow> (\<exists>x \<in> set clk2. lastTimestamp g < currentTimestamp g x))"
  using assms
proof (induction clk arbitrary: t)
  case Nil
  then show ?case by simp
next
  case (Cons now clk)
  show ?case
  proof (cases "t < lastTimestamp g")
    case False
    then show ?thesis using Cons.prems by simp
  next
    case wait: True
    show ?thesis
    proof (cases "lastTimestamp g < currentTimestamp g now")
      case True
      then have "rollbackWait g (currentTimestamp g now) clk = Some (currentTimestamp g now, clk)"
        by (intro rollbackWait_done) simp
      with wait True show ?thesis by auto
    next
      case False
      with Cons.prems have "\<exists>x \<in> set clk. lastTimestamp g < currentTimestamp g x" by simp
      from Cons.IH [OF this, of "currentTimestamp g now"] wait show ?thesis by simp
    qed
  qed
qed

lemma waitLoop_returns:
  assumes "\<exists>x \<in> set clk. lastTs < currentTimestamp g x"
  shows "\<exists>t' clk'. waitLoop g lastTs t clk = Some (t', clk')"
  using assms
proof (induction clk arbitrary: t)
  case Nil
  then show ?case by simp
next
  case (Cons now clk)
  show ?case
  proof (cases "t \<le> lastTs")
    case False
    then show ?thesis by simp
  next
    case wait: True
    show ?thesis
    proof (cases "lastTs < currentTimestamp g now")
      case True
      then have "waitLoop g lastTs (currentTimestamp g now) clk = Some (currentTimestamp g now, clk)"
        by (intro waitLoop_done) simp
      with wait show ?thesis by simp
    next
      case False
      with Cons.prems have "\<exists>x \<in> set clk. lastTs < currentTimestamp g x" by simp
      from Cons.IH [OF this, of "currentTimestamp g now"] wait show ?thesis by simp
    qed
  qed
qed

lemma waitNextTimestamp_returns:
  assumes "\<exists>x \<in> set clk. lastTs < currentTimestamp g x"
  shows "\<exists>t' clk'. waitNextTimestamp g lastTs clk = Some (t', clk')"
proof (cases clk)
  case Nil
  with assms show ?thesis by simp
next
  case (Cons now rest)
  show ?thesis
  proof (cases "lastTs < currentTimestamp g now")
    case True
    then have "waitLoop g lastTs (currentTimestamp g now) rest = Some (currentTimestamp g now, rest)"
      by (intro waitLoop_done) simp
    with Cons show ?thesis by simp
  next
    case False
    with assms Cons have "\<exists>x \<in> set rest. lastTs < currentTimestamp g x" by simp
    from waitLoop_returns [OF this] Cons show ?thesis by simp
  qed
qed

lemma NextID_not_error:
  assumes "\<not> MaxTimestamp (layout g) < currentTimestamp g now"
  shows "NextID g (now # clk) \<noteq> Some (Inl e, g', clk')"
  using assms by (auto simp: Let_def emit_def split: option.splits if_splits)

lemma NextID_returns:
  assumes first: "\<not> MaxTimestamp (layout g) < currentTimestamp g now"
    and later: "\<exists>x \<in> set clk. lastTimestamp g < currentTimestamp g x"
  shows "\<exists>ident g' clk'. NextID g (now # clk) = Some (Inr ident, g', clk')"
proof -
  from rollbackWait_returns [OF later, of "currentTimestamp g now"]
  obtain t1 clk2 where rw: "rollbackWait g (currentTimestamp g now) clk = Some (t1, clk2)"
    and rest: "t1 = lastTimestamp g \<longrightarrow> (\<exists>x \<in> set clk2. lastTimestamp g < currentTimestamp g x)"
    by blast
  show ?thesis
  proof (cases "t1 = lastTimestamp g")
    case False
    with first rw show ?thesis by (simp add: emit_def Let_def)
  next
    case True
    from True rest have "\<exists>x \<in> set clk2. t1 < currentTimestamp g x"
      by simp
    from waitNextTimestamp_returns [OF this]
    obtain t2 clk3 where "waitNextTimestamp g t1 clk2 = Some (t2, clk3)" by blast
    with first rw True show ?thesis
      by (simp add: emit_def Let_def)
  qed
qed

lemma rollbackWait_None_iff:
  "rollbackWait g t clk = None
     \<longleftrightarrow> t < lastTimestamp g \<and> (\<forall>x \<in> set clk. currentTimestamp g x < lastTimestamp g)"
  by (induction g t clk rule: rollbackWait.induct) auto

lemma waitLoop_None_iff:
  "waitLoop g lastTs t clk = None
     \<longleftrightarrow> t \<le> lastTs \<and> (\<forall>x \<in> set clk. currentTimestamp g x \<le> lastTs)"
  by (induction g lastTs t clk rule: waitLoop.induct) auto

lemma waitNextTimestamp_None_iff:
  "waitNextTimestamp g lastTs clk = None \<longleftrightarrow> (\<forall>x \<in> set clk. currentTimestamp g x \<le> lastTs)"
  by (cases clk) (auto simp: waitLoop_None_iff)

lemma rollbackWait_Some_split:
  assumes "rollbackWait g (currentTimestamp g now) clk = Some (t', clk')"
  shows "\<exists>pre x. now # clk = pre @ x # clk'
           \<and> (\<forall>y \<in> set pre. currentTimestamp g y < lastTimestamp g)
           \<and> t' = currentTimestamp g x \<and> lastTimestamp g \<le> currentTimestamp g x"
  using assms
proof (induction clk arbitrary: now)
  case Nil
  then have "now # [] = [] @ now # clk'" "t' = currentTimestamp g now"
    "lastTimestamp g \<le> currentTimestamp g now"
    by (auto split: if_splits)
  then show ?case by fastforce
next
  case (Cons n2 rest)
  show ?case
  proof (cases "currentTimestamp g now < lastTimestamp g")
    case True
    with Cons.prems have "rollbackWait g (currentTimestamp g n2) rest = Some (t', clk')" by simp
    from Cons.IH [OF this] obtain pre x where
      p: "n2 # rest = pre @ x # clk'" "\<forall>y \<in> set pre. currentTimestamp g y < lastTimestamp g"
         "t' = currentTimestamp g x" "lastTimestamp g \<le> currentTimestamp g x"
      by blast
    then have "now # n2 # rest = (now # pre) @ x # clk'"
      "\<forall>y \<in> set (now # pre). currentTimestamp g y < lastTimestamp g"
      using True by simp_all
    with p(3,4) show ?thesis by blast
  next
    case False
    with Cons.prems have "now # n2 # rest = [] @ now # clk'" "t' = currentTimestamp g now"
      "lastTimestamp g \<le> currentTimestamp g now"
      by auto
    then show ?thesis by fastforce
  qed
qed

lemma waitNextTimestamp_Some_split:
  assumes "waitNextTimestamp g lastTs clk = Some (t', clk')"
  shows "\<exists>pre x. clk = pre @ x # clk'
           \<and> (\<forall>y \<in> set pre. currentTimestamp g y \<le> lastTs)
           \<and> t' = currentTimestamp g x \<and> lastTs < currentTimestamp g x"
proof -
  let ?P = "\<lambda>x. currentTimestamp g x \<le> lastTs"
  from assms obtain x where d: "dropWhile ?P clk = x # clk'" and t': "t' = currentTimestamp g x"
    by (auto simp: waitNextTimestamp_dropWhile split: list.splits)
  then have "clk = takeWhile ?P clk @ x # clk'" "\<not> ?P x"
    by (simp_all add: dropWhile_eq_Cons_conv)
  moreover have "\<forall>y \<in> set (takeWhile ?P clk). ?P y"
    by (auto dest: set_takeWhileD)
  ultimately show ?thesis using t' by (auto simp: not_le)
qed

lemma seq_wrap_iff:
  fixes s :: "64 word"
  assumes "s \<le> 255"
  shows "(s + 1) AND 255 = 0 \<longleftrightarrow> s = 255"
proof
  assume "s = 255"
  then show "(s + 1) AND 255 = 0" by simp
next
  assume w: "(s + 1) AND 255 = 0"
  show "s = 255"
  proof (rule ccontr)
    assume ne: "s \<noteq> 255"
    have le: "uint s \<le> 255" using assms by (simp add: word_le_def)
    from ne have "uint s \<noteq> 255" by (auto simp: word_uint_eq_iff)
    with le have le': "uint s \<le> 254" by simp
    have "uint (s + 1) = (uint s + 1) mod 18446744073709551616"
      by (simp add: uint_word_ariths)
    also have "\<dots> = uint s + 1"
      using le' by (intro mod_pos_pos_trivial) simp_all
    finally have u: "uint (s + 1) = uint s + 1" .
    have "s + 1 < 2 ^ 8" using u le' by (simp add: word_less_def)
    then have "(s + 1) AND mask 8 = s + 1" by (rule less_mask_eq)
    then have "(s + 1) AND 255 = s + 1" by (simp add: mask_numeral)
    with w have "uint (s + 1) = 0" by simp
    with u have "uint s + 1 = 0" by simp
    moreover have "0 \<le> uint s" by simp
    ultimately show False by linarith
  qed
qed

lemma wrap_iff:
  assumes "genOK g"
  shows "(sequence g + 1) AND MaxSequence (layout g) = 0 \<longleftrightarrow> sequence g = MaxSequence (layout g)"
  using seq_wrap_iff [of "sequence g"] assms by (simp add: genOK_D)

lemma NextID_None_iff:
  assumes first: "\<not> MaxTimestamp (layout g) < currentTimestamp g now"
  shows "NextID g (now # clk) = None \<longleftrightarrow>
           (if (sequence g + 1) AND MaxSequence (layout g) = 0
            then \<forall>x \<in> set (now # clk). currentTimestamp g x \<le> lastTimestamp g
            else \<forall>x \<in> set (now # clk). currentTimestamp g x < lastTimestamp g)"
proof (cases "rollbackWait g (currentTimestamp g now) clk")
  case None
  then have "\<forall>x \<in> set (now # clk). currentTimestamp g x < lastTimestamp g"
    by (simp add: rollbackWait_None_iff)
  moreover from this have "\<forall>x \<in> set (now # clk). currentTimestamp g x \<le> lastTimestamp g"
    by (auto intro: less_imp_le)
  moreover have "NextID g (now # clk) = None" using None first by simp
  ultimately show ?thesis by (auto simp del: NextID.simps)
next
  case (Some res)
  obtain t1 clk2 where res: "res = (t1, clk2)" by (cases res) auto
  with Some have rw: "rollbackWait g (currentTimestamp g now) clk = Some (t1, clk2)" by simp
  from rollbackWait_Some_split [OF rw] obtain pre x where
    p: "now # clk = pre @ x # clk2" "\<forall>y \<in> set pre. currentTimestamp g y < lastTimestamp g"
       "t1 = currentTimestamp g x" "lastTimestamp g \<le> currentTimestamp g x"
    by blast
  have mem: "x \<in> set (now # clk)" unfolding p(1) by simp
  have all: "(\<forall>y \<in> set (now # clk). currentTimestamp g y \<le> lastTimestamp g)
      \<longleftrightarrow> currentTimestamp g x \<le> lastTimestamp g
          \<and> (\<forall>y \<in> set clk2. currentTimestamp g y \<le> lastTimestamp g)"
    unfolding p(1) using p(2) by (auto intro: less_imp_le)
  show ?thesis
  proof (cases "t1 = lastTimestamp g")
    case same: True
    show ?thesis
    proof (cases "(sequence g + 1) AND MaxSequence (layout g) = 0")
      case True
      then have "NextID g (now # clk) = None
          \<longleftrightarrow> waitNextTimestamp g (lastTimestamp g) clk2 = None"
        using first rw same
        by (auto simp: Let_def emit_def split: option.splits)
      then have "NextID g (now # clk) = None
          \<longleftrightarrow> (\<forall>y \<in> set clk2. currentTimestamp g y \<le> lastTimestamp g)"
        by (simp only: waitNextTimestamp_None_iff)
      with True all same p(3) show ?thesis by (auto simp del: NextID.simps)
    next
      case False
      then have "NextID g (now # clk) \<noteq> None"
        using first rw same by (simp add: Let_def emit_def)
      moreover have "\<not> currentTimestamp g x < lastTimestamp g"
        using same p(3) by simp
      with mem have "\<not> (\<forall>y \<in> set (now # clk). currentTimestamp g y < lastTimestamp g)"
        by blast
      ultimately show ?thesis using False by (auto simp del: NextID.simps)
    qed
  next
    case False
    then have "NextID g (now # clk) \<noteq> None"
      using first rw by (simp add: Let_def emit_def)
    moreover from False p(3,4) have "lastTimestamp g < currentTimestamp g x" by simp
    then have nle: "\<not> currentTimestamp g x \<le> lastTimestamp g"
      and nlt: "\<not> currentTimestamp g x < lastTimestamp g"
      by simp_all
    from nle mem have "\<not> (\<forall>y \<in> set (now # clk). currentTimestamp g y \<le> lastTimestamp g)"
      by blast
    moreover from nlt mem
    have "\<not> (\<forall>y \<in> set (now # clk). currentTimestamp g y < lastTimestamp g)"
      by blast
    ultimately show ?thesis by (auto simp del: NextID.simps)
  qed
qed

lemma NextID_Some_shape:
  assumes run: "NextID g (now # clk) = Some (r, g', clk')"
    and first: "\<not> MaxTimestamp (layout g) < currentTimestamp g now"
  shows "\<exists>pre x. now # clk = pre @ x # clk'
           \<and> lastTimestamp g \<le> currentTimestamp g x
           \<and> (\<forall>y \<in> set pre. currentTimestamp g y \<le> lastTimestamp g)
           \<and> ((sequence g + 1) AND MaxSequence (layout g) \<noteq> 0 \<longrightarrow>
                (\<forall>y \<in> set pre. currentTimestamp g y < lastTimestamp g))
           \<and> ((sequence g + 1) AND MaxSequence (layout g) = 0 \<longrightarrow>
                lastTimestamp g < currentTimestamp g x)
           \<and> g' = g\<lparr>sequence := (if currentTimestamp g x = lastTimestamp g
                                   then (sequence g + 1) AND MaxSequence (layout g) else 0),
                     lastTimestamp := currentTimestamp g x\<rparr>
           \<and> r = Inr (encodeID g' (currentTimestamp g x))"
proof -
  from run first obtain t1 clk2 where rw: "rollbackWait g (currentTimestamp g now) clk = Some (t1, clk2)"
    by (auto split: option.splits)
  from rollbackWait_Some_split [OF rw] obtain pre x where
    p: "now # clk = pre @ x # clk2" "\<forall>y \<in> set pre. currentTimestamp g y < lastTimestamp g"
       "t1 = currentTimestamp g x" "lastTimestamp g \<le> currentTimestamp g x"
    by blast
  have ple: "\<forall>y \<in> set pre. currentTimestamp g y \<le> lastTimestamp g"
    using p(2) by (auto intro: less_imp_le)
  show ?thesis
  proof (cases "t1 = lastTimestamp g")
    case same: True
    define g1 where "g1 = g\<lparr>sequence := (sequence g + 1) AND MaxSequence (layout g)\<rparr>"
    show ?thesis
    proof (cases "(sequence g + 1) AND MaxSequence (layout g) = 0")
      case wrap: True
      with run first rw same obtain t2 clk3
        where w: "waitNextTimestamp g t1 clk2 = Some (t2, clk3)"
          and e: "emit g1 t2 clk3 = Some (r, g', clk')"
        by (auto simp: g1_def Let_def split: option.splits)
      from waitNextTimestamp_Some_split [OF w] obtain pre2 x2 where
        q: "clk2 = pre2 @ x2 # clk3" "\<forall>y \<in> set pre2. currentTimestamp g y \<le> t1"
           "t2 = currentTimestamp g x2" "t1 < currentTimestamp g x2"
        by blast
      from emit_Some [OF e] have r: "r = Inr (encodeID g' (lastTimestamp g'))"
        and g': "g' = g1\<lparr>lastTimestamp := t2\<rparr>" and c: "clk' = clk3" by simp_all
      have 1: "now # clk = (pre @ x # pre2) @ x2 # clk'"
        using p(1) q(1) c by simp
      have 2: "\<forall>y \<in> set (pre @ x # pre2). currentTimestamp g y \<le> lastTimestamp g"
        using ple q(2) same p(3) by auto
      have 3: "lastTimestamp g < currentTimestamp g x2" using q(4) same by simp
      have 4: "g' = g\<lparr>sequence := (if currentTimestamp g x2 = lastTimestamp g
                                   then (sequence g + 1) AND MaxSequence (layout g) else 0),
                     lastTimestamp := currentTimestamp g x2\<rparr>"
        using 3 wrap by (simp add: g' g1_def q(3))
      have 5: "r = Inr (encodeID g' (currentTimestamp g x2))"
        using r by (simp add: g' q(3))
      from 1 2 3 4 5 wrap show ?thesis
        by (intro exI [of _ "pre @ x # pre2"] exI [of _ x2]) (simp add: less_imp_le)
    next
      case nowrap: False
      with run first rw same have e: "emit g1 t1 clk2 = Some (r, g', clk')"
        by (auto simp: g1_def Let_def split: option.splits)
      from emit_Some [OF e] have r: "r = Inr (encodeID g' (lastTimestamp g'))"
        and g': "g' = g1\<lparr>lastTimestamp := t1\<rparr>" and c: "clk' = clk2" by simp_all
      have 4: "g' = g\<lparr>sequence := (if currentTimestamp g x = lastTimestamp g
                                   then (sequence g + 1) AND MaxSequence (layout g) else 0),
                     lastTimestamp := currentTimestamp g x\<rparr>"
        using same p(3) by (simp add: g' g1_def)
      have 5: "r = Inr (encodeID g' (currentTimestamp g x))"
        using r by (simp add: g' p(3))
      from p ple 4 5 nowrap c show ?thesis
        by (intro exI [of _ pre] exI [of _ x]) simp
    qed
  next
    case diff: False
    with run first rw have e: "emit (g\<lparr>sequence := 0\<rparr>) t1 clk2 = Some (r, g', clk')"
      by (auto simp: Let_def split: option.splits)
    from emit_Some [OF e] have r: "r = Inr (encodeID g' (lastTimestamp g'))"
      and g': "g' = g\<lparr>sequence := 0, lastTimestamp := t1\<rparr>" and c: "clk' = clk2" by simp_all
    have lt: "lastTimestamp g < currentTimestamp g x" using diff p(3,4) by simp
    have 4: "g' = g\<lparr>sequence := (if currentTimestamp g x = lastTimestamp g
                                   then (sequence g + 1) AND MaxSequence (layout g) else 0),
                     lastTimestamp := currentTimestamp g x\<rparr>"
      using diff p(3) by (simp add: g')
    have 5: "r = Inr (encodeID g' (currentTimestamp g x))"
      using r by (simp add: g' p(3))
    from p ple 4 5 lt c show ?thesis
      by (intro exI [of _ pre] exI [of _ x]) simp
  qed
qed

section \<open>The timestamp field never goes back\<close>

lemma uint_take45_lo:
  assumes "(t :: 64 word) \<le> 9223372036854"
  shows "uint (take_bit 45 t) = uint t"
proof -
  have "uint t \<le> 9223372036854" using assms by (simp add: word_le_def)
  then have "uint t mod 35184372088832 = uint t"
    by (intro mod_pos_pos_trivial) simp_all
  moreover have "uint (take_bit 45 t) = uint t mod 2 ^ 45"
    using unsigned_take_bit_eq [of 45 t, where ?'a = int] by (simp only: take_bit_eq_mod)
  ultimately show ?thesis by simp
qed

lemma uint_take45_hi:
  assumes "18446734850337514762 \<le> (t :: 64 word)"
  shows "uint (take_bit 45 t) = uint t - 18446708889337462784"
proof -
  have lo: "18446734850337514762 \<le> uint t" using assms by (simp add: word_le_def)
  have hi: "uint t < 18446744073709551616" using uint_lt2p [of t] by simp
  have "uint t mod 35184372088832
      = (uint t - 18446708889337462784 + 524287 * 35184372088832) mod 35184372088832"
    by simp
  also have "\<dots> = (uint t - 18446708889337462784) mod 35184372088832"
    by (rule mod_mult_self1)
  also have "\<dots> = uint t - 18446708889337462784"
    using lo hi by (intro mod_pos_pos_trivial) simp_all
  finally have "uint t mod 35184372088832 = uint t - 18446708889337462784" .
  moreover have "uint (take_bit 45 t) = uint t mod 2 ^ 45"
    using unsigned_take_bit_eq [of 45 t, where ?'a = int] by (simp only: take_bit_eq_mod)
  ultimately show ?thesis by simp
qed

lemma take45_mono:
  assumes "tickOK t" "tickOK t'" "t \<le> t'"
  shows "take_bit 45 t \<le> take_bit 45 t'"
proof -
  have le: "uint t \<le> uint t'" using assms(3) by (simp add: word_le_def)
  consider (ll) "t \<le> 9223372036854" "t' \<le> 9223372036854"
    | (lh) "t \<le> 9223372036854" "18446734850337514762 \<le> t'"
    | (hl) "18446734850337514762 \<le> t" "t' \<le> 9223372036854"
    | (hh) "18446734850337514762 \<le> t" "18446734850337514762 \<le> t'"
    using assms(1,2) by (auto simp: tickOK_def)
  then have "uint (take_bit 45 t) \<le> uint (take_bit 45 t')"
  proof cases
    case ll then show ?thesis using le by (simp add: uint_take45_lo)
  next
    case lh
    then have "uint t \<le> 9223372036854" "18446734850337514762 \<le> uint t'"
      by (simp_all add: word_le_def)
    with lh show ?thesis by (simp add: uint_take45_lo uint_take45_hi)
  next
    case hl
    then have "18446734850337514762 \<le> uint t" "uint t' \<le> 9223372036854"
      by (simp_all add: word_le_def)
    with le show ?thesis by simp
  next
    case hh then show ?thesis using le by (simp add: uint_take45_hi)
  qed
  then show ?thesis by (simp add: word_le_def)
qed

lemma timestampOf_encodeID:
  assumes "genOK g"
  shows "timestampOf (layout g) (encodeID g t) = take_bit 45 t"
proof -
  have n: "nodeID g \<le> 255" and s: "sequence g \<le> 255"
    using assms by (simp_all add: genOK_D)
  show ?thesis
    using fields_timestamp [OF n s, of t] assms
    by (simp add: timestampOf_def encodeID_genOK genOK_D)
qed

lemma timestampOf_Decode:
  assumes "Decode ident = Inr d" "versionLayouts v = Some l"
  shows "Timestamp d = timestampOf l ident"
proof -
  from assms(1) obtain l' where l': "versionLayouts (ucast (drop_bit 61 ident AND 7)) = Some l'"
    and d: "Timestamp d = drop_bit (unat (SequenceBits l' + NodeBits l')) ident AND MaxTimestamp l'"
    by (auto simp: Decode_def extractVersion_def Let_def split: option.splits)
  have "l' = l" using registered [OF l'] registered [OF assms(2)] l' assms(2) by simp
  with d show ?thesis by (simp add: timestampOf_def)
qed

lemma calls_timestamps:
  assumes "genOK g"
  shows "sorted (map (timestampOf (layout g)) (calls n g clk))
       \<and> (\<forall>x \<in> set (calls n g clk).
             timestampOf (layout g) (encodeID g (lastTimestamp g)) \<le> timestampOf (layout g) x)"
  using assms
proof (induction n arbitrary: g clk)
  case 0
  then show ?case by simp
next
  case (Suc n)
  show ?case
  proof (cases "NextID g clk")
    case None
    then show ?thesis by simp
  next
    case (Some res)
    obtain r g' clk' where res: "res = (r, g', clk')" by (cases res) auto
    from NextID_cases [OF Suc.prems Some [unfolded res]]
    show ?thesis
    proof
      assume "r = Inl ErrTimestampOverflow \<and> g' = g"
      then show ?thesis using Some res Suc.IH [OF Suc.prems, of clk'] by simp
    next
      assume a: "r = Inr (encodeID g' (lastTimestamp g')) \<and> advanced g g'"
      then have ok': "genOK g'" and l: "layout g' = layout g"
        and le: "lastTimestamp g \<le> lastTimestamp g'"
        by (auto simp: advanced_def)
      have "take_bit 45 (lastTimestamp g) \<le> take_bit 45 (lastTimestamp g')"
        using Suc.prems ok' le by (intro take45_mono) (simp_all add: genOK_D)
      then have lt: "timestampOf (layout g) (encodeID g (lastTimestamp g))
            \<le> timestampOf (layout g) (encodeID g' (lastTimestamp g'))"
        using timestampOf_encodeID [OF Suc.prems] timestampOf_encodeID [OF ok'] l by simp
      from Suc.IH [OF ok', of clk'] lt l show ?thesis
        using Some res a by auto
    qed
  qed
qed

section \<open>States of the test generator\<close>

lemma reachable_testGenerator: "reachable testConfig testGenerator"
proof -
  have "NewGenerator testConfig = Inr testGenerator" by code_simp
  then show ?thesis by (rule reachable.fresh)
qed

lemma reachable_testGenerator_1000:
  "reachable testConfig (testGenerator\<lparr>lastTimestamp := 1000\<rparr>)"
proof -
  have "NextID testGenerator [1767225601000000000]
      = Some (Inr 65536256, testGenerator\<lparr>lastTimestamp := 1000\<rparr>, [])"
    by code_simp
  with reachable_testGenerator show ?thesis by (rule reachable.step)
qed

lemma reachable_testGenerator_first:
  "reachable testConfig (testGenerator\<lparr>lastTimestamp := 26308800000\<rparr>)"
proof -
  have "NextID testGenerator [Date 2026 11 1 12 0 0 0]
      = Some (Inr 1724173516800256, testGenerator\<lparr>lastTimestamp := 26308800000\<rparr>, [])"
    by code_simp
  with reachable_testGenerator show ?thesis by (rule reachable.step)
qed

lemma reachable_testGenerator_before_epoch:
  "reachable testConfig (testGenerator\<lparr>lastTimestamp := 18446744068482351616\<rparr>)"
proof -
  have "NextID (testGenerator\<lparr>lastTimestamp := 26308800000\<rparr>)
          [Date 2026 11 1 11 59 59 0, Date 2025 11 1 12 0 0 0]
      = Some (Inr 18446401503930351872,
              testGenerator\<lparr>lastTimestamp := 18446744068482351616\<rparr>, [])"
    by code_simp
  with reachable_testGenerator_first show ?thesis by (rule reachable.step)
qed

section \<open>Claims\<close>

text \<open>
  C1. The identifiers that successive successful calls of \<open>NextID\<close> on one generator
  return are strictly increasing as unsigned 64-bit integers, hence pairwise distinct:
  a successful call moves the pair (time tick, sequence) strictly up in the
  lexicographic order (a greater tick, or the same tick and a greater sequence), and
  the identifier it returns encodes that pair.
\<close>

theorem NextID_ids_strictly_increasing:
  assumes "reachable cfg g"
  shows "sorted_wrt (<) (calls n g clk) \<and> distinct (calls n g clk)
       \<and> (\<forall>ident g' clk'. NextID g clk = Some (Inr ident, g', clk') \<longrightarrow>
            ident = encodeID g' (lastTimestamp g')
            \<and> (lastTimestamp g < lastTimestamp g'
               \<or> lastTimestamp g = lastTimestamp g' \<and> sequence g < sequence g'))"
proof -
  have ok: "genOK g" using assms reachable_genOK by simp
  have s: "sorted_wrt (<) (calls n g clk)" using calls_increasing [OF ok] by simp
  then have "distinct (calls n g clk)" using strict_sorted_iff by blast
  moreover have "ident = encodeID g' (lastTimestamp g')
            \<and> (lastTimestamp g < lastTimestamp g'
               \<or> lastTimestamp g = lastTimestamp g' \<and> sequence g < sequence g')"
    if "NextID g clk = Some (Inr ident, g', clk')" for ident g' clk'
    using NextID_cases [OF ok that] by (simp add: advanced_def)
  ultimately show ?thesis using s by blast
qed

theorem NextID_ids_strictly_increasing_witness:
  "calls 4 testGenerator
     [1767225601000000000, 1767225601000000000, 1767225600999000000, 1767225601002000000,
      1767225601002000000]
     = [65536256, 65536257, 65667328, 65667329]
   \<and> sorted_wrt (<) [65536256, 65536257, 65667328, 65667329 :: 64 word]
   \<and> distinct [65536256, 65536257, 65667328, 65667329 :: 64 word]"
proof -
  let ?clk = "[1767225601000000000, 1767225601000000000, 1767225600999000000,
               1767225601002000000, 1767225601002000000] :: clock"
  have c: "calls 4 testGenerator ?clk = [65536256, 65536257, 65667328, 65667329]"
    by code_simp
  from NextID_ids_strictly_increasing [OF reachable_testGenerator, of 4 ?clk] show ?thesis
    unfolding c by simp
qed

text \<open>
  C2. Round trip: an identifier that \<open>NextID\<close> returns on a generator created from
  \<open>cfg\<close>, with an emitted tick of at most \<open>MaxTimestamp\<close>, is the encoding of the
  generator's version, the tick, the node and the sequence, and \<open>Decode\<close> returns
  exactly these: the version and the node of \<open>cfg\<close>, the tick and the sequence.
\<close>

theorem Decode_NextID_roundtrip:
  assumes "reachable cfg g" "NextID g clk = Some (Inr ident, g', clk')"
    and "lastTimestamp g' \<le> MaxTimestamp (layout g')"
  shows "ident = encodeID g' (lastTimestamp g')
       \<and> (\<exists>d. Decode ident = Inr d
            \<and> DecodedID.Version d = Config.Version cfg
            \<and> DecodedID.NodeID d = Config.NodeID cfg
            \<and> Timestamp d = lastTimestamp g'
            \<and> Sequence d = sequence g')"
proof -
  have r': "reachable cfg g'" using assms(1,2) by (rule reachable.step)
  have ok: "genOK g" using assms(1) reachable_genOK by simp
  have ok': "genOK g'" and l: "versionLayouts (Config.Version cfg) = Some (layout g')"
    and n: "nodeID g' = Config.NodeID cfg"
    using r' reachable_genOK by simp_all
  have v: "VersionLayout.Version (layout g') = Config.Version cfg"
    using registered [OF l] by simp
  have i: "ident = encodeID g' (lastTimestamp g')"
    using NextID_cases [OF ok assms(2)] by simp
  show ?thesis
    unfolding i using Decode_encodeID [OF ok' assms(3)] v n by simp
qed

theorem Decode_NextID_roundtrip_witness:
  "NextID testGenerator [1767225601000000000]
     = Some (Inr 65536256, testGenerator\<lparr>lastTimestamp := 1000\<rparr>, [])
   \<and> (\<exists>d. Decode 65536256 = Inr d
         \<and> DecodedID.Version d = 0 \<and> DecodedID.NodeID d = 1
         \<and> Timestamp d = 1000 \<and> Sequence d = 0)"
proof -
  have run: "NextID testGenerator [1767225601000000000]
      = Some (Inr 65536256, testGenerator\<lparr>lastTimestamp := 1000\<rparr>, [])"
    by code_simp
  have le: "lastTimestamp (testGenerator\<lparr>lastTimestamp := 1000\<rparr>)
      \<le> MaxTimestamp (layout (testGenerator\<lparr>lastTimestamp := 1000\<rparr>))"
    by code_simp
  from Decode_NextID_roundtrip [OF reachable_testGenerator run le] run
  show ?thesis by (simp add: testConfig_def testGenerator_def Version0_def)
qed

text \<open>
  C3, with the bound the code needs. When the tick of the call's first reading is at
  most \<open>MaxTimestamp\<close> (the overflow check comes first and is the only error),
  clock rollback and sequence exhaustion never make \<open>NextID\<close> fail: the call blocks,
  reading the clock again. It has not returned exactly as long as every reading so
  far has a tick below \<open>lastTimestamp\<close> or, when the sequence is exhausted, at most
  \<open>lastTimestamp\<close>. When it returns, it has skipped only such readings, and the tick it
  stores and encodes is the tick of the last reading it took: the first to reach
  \<open>lastTimestamp\<close>, or the first beyond it when the sequence was exhausted. A call that
  returns leaves \<open>lastTimestamp\<close> at least where it was, and strictly greater when
  the sequence was at its maximum. Over any run of calls the
  timestamp fields of the identifiers returned, read as \<open>Decode\<close> reads them, never
  decrease. The two wait loops are the corresponding \<open>dropWhile\<close> over the readings.
\<close>

theorem NextID_blocks_never_goes_back:
  assumes "reachable cfg g"
  shows "(currentTimestamp g now \<le> MaxTimestamp (layout g) \<longrightarrow>
            (\<forall>e g' clk'. NextID g (now # clk) \<noteq> Some (Inl e, g', clk'))
            \<and> ((\<exists>x \<in> set clk. lastTimestamp g < currentTimestamp g x) \<longrightarrow>
                 (\<exists>ident g' clk'. NextID g (now # clk) = Some (Inr ident, g', clk')))
            \<and> (currentTimestamp g now < lastTimestamp g
                 \<and> (\<forall>x \<in> set clk. currentTimestamp g x < lastTimestamp g) \<longrightarrow>
                 NextID g (now # clk) = None)
            \<and> (sequence g \<noteq> MaxSequence (layout g) \<longrightarrow>
                 (NextID g (now # clk) = None
                    \<longleftrightarrow> (\<forall>x \<in> set (now # clk). currentTimestamp g x < lastTimestamp g)))
            \<and> (sequence g = MaxSequence (layout g) \<longrightarrow>
                 (NextID g (now # clk) = None
                    \<longleftrightarrow> (\<forall>x \<in> set (now # clk). currentTimestamp g x \<le> lastTimestamp g)))
            \<and> (\<forall>r g' clk'. NextID g (now # clk) = Some (r, g', clk') \<longrightarrow>
                 (\<exists>pre x. now # clk = pre @ x # clk'
                    \<and> lastTimestamp g \<le> currentTimestamp g x
                    \<and> (\<forall>y \<in> set pre. currentTimestamp g y \<le> lastTimestamp g)
                    \<and> (sequence g \<noteq> MaxSequence (layout g) \<longrightarrow>
                         (\<forall>y \<in> set pre. currentTimestamp g y < lastTimestamp g))
                    \<and> (sequence g = MaxSequence (layout g) \<longrightarrow>
                         lastTimestamp g < currentTimestamp g x)
                    \<and> g' = g\<lparr>sequence := (if currentTimestamp g x = lastTimestamp g
                                            then (sequence g + 1) AND MaxSequence (layout g)
                                            else 0),
                              lastTimestamp := currentTimestamp g x\<rparr>
                    \<and> r = Inr (encodeID g' (currentTimestamp g x)))))
       \<and> (\<forall>ident g' clk'. NextID g clk0 = Some (Inr ident, g', clk') \<longrightarrow>
            lastTimestamp g \<le> lastTimestamp g'
            \<and> (sequence g = MaxSequence (layout g) \<longrightarrow> lastTimestamp g < lastTimestamp g'))
       \<and> sorted (map (timestampOf (layout g)) (calls n g clk0))
       \<and> (\<forall>ident d. Decode ident = Inr d \<longrightarrow> Timestamp d = timestampOf (layout g) ident)
       \<and> (t < lastTimestamp g \<longrightarrow>
            rollbackWait g t clk =
              (case dropWhile (\<lambda>x. currentTimestamp g x < lastTimestamp g) clk of
                 [] \<Rightarrow> None
               | x # rest \<Rightarrow> Some (currentTimestamp g x, rest)))
       \<and> waitNextTimestamp g t clk =
             (case dropWhile (\<lambda>x. currentTimestamp g x \<le> t) clk of
                [] \<Rightarrow> None
              | x # rest \<Rightarrow> Some (currentTimestamp g x, rest))"
proof -
  have ok: "genOK g" and l: "versionLayouts (Config.Version cfg) = Some (layout g)"
    using assms reachable_genOK by simp_all
  note w = wrap_iff [OF ok]
  have a: "NextID g (now # clk) \<noteq> Some (Inl e, g', clk')"
    if "currentTimestamp g now \<le> MaxTimestamp (layout g)" for e g' clk'
    using that by (intro NextID_not_error) (simp add: not_less)
  have b: "\<exists>ident g' clk'. NextID g (now # clk) = Some (Inr ident, g', clk')"
    if "currentTimestamp g now \<le> MaxTimestamp (layout g)"
      and "\<exists>x \<in> set clk. lastTimestamp g < currentTimestamp g x"
    using that by (intro NextID_returns) (simp_all add: not_less)
  have n1: "NextID g (now # clk) = None
              \<longleftrightarrow> (\<forall>x \<in> set (now # clk). currentTimestamp g x < lastTimestamp g)"
    if "currentTimestamp g now \<le> MaxTimestamp (layout g)"
      and "sequence g \<noteq> MaxSequence (layout g)"
    using NextID_None_iff [of g now clk] that w by (simp add: not_less del: NextID.simps)
  have n2: "NextID g (now # clk) = None
              \<longleftrightarrow> (\<forall>x \<in> set (now # clk). currentTimestamp g x \<le> lastTimestamp g)"
    if "currentTimestamp g now \<le> MaxTimestamp (layout g)"
      and "sequence g = MaxSequence (layout g)"
    using NextID_None_iff [of g now clk] that w by (simp add: not_less del: NextID.simps)
  have n0: "NextID g (now # clk) = None"
    if g0: "currentTimestamp g now \<le> MaxTimestamp (layout g)"
      and "currentTimestamp g now < lastTimestamp g
           \<and> (\<forall>x \<in> set clk. currentTimestamp g x < lastTimestamp g)"
  proof (cases "sequence g = MaxSequence (layout g)")
    case True
    from that(2) have "\<forall>x \<in> set (now # clk). currentTimestamp g x \<le> lastTimestamp g"
      by (auto intro: less_imp_le)
    with n2 [OF g0 True] show ?thesis by blast
  next
    case False
    from that(2) have "\<forall>x \<in> set (now # clk). currentTimestamp g x < lastTimestamp g"
      by auto
    with n1 [OF g0 False] show ?thesis by blast
  qed
  have n3: "\<exists>pre x. now # clk = pre @ x # clk'
                    \<and> lastTimestamp g \<le> currentTimestamp g x
                    \<and> (\<forall>y \<in> set pre. currentTimestamp g y \<le> lastTimestamp g)
                    \<and> (sequence g \<noteq> MaxSequence (layout g) \<longrightarrow>
                         (\<forall>y \<in> set pre. currentTimestamp g y < lastTimestamp g))
                    \<and> (sequence g = MaxSequence (layout g) \<longrightarrow>
                         lastTimestamp g < currentTimestamp g x)
                    \<and> g' = g\<lparr>sequence := (if currentTimestamp g x = lastTimestamp g
                                            then (sequence g + 1) AND MaxSequence (layout g)
                                            else 0),
                              lastTimestamp := currentTimestamp g x\<rparr>
                    \<and> r = Inr (encodeID g' (currentTimestamp g x))"
    if "currentTimestamp g now \<le> MaxTimestamp (layout g)"
      and "NextID g (now # clk) = Some (r, g', clk')" for r g' clk'
    using NextID_Some_shape [OF that(2)] that(1) unfolding w by (simp add: not_less)
  have c: "lastTimestamp g \<le> lastTimestamp g'
            \<and> (sequence g = MaxSequence (layout g) \<longrightarrow> lastTimestamp g < lastTimestamp g')"
    if "NextID g clk0 = Some (Inr ident, g', clk')" for ident g' clk'
  proof -
    from NextID_cases [OF ok that] have adv: "advanced g g'" by simp
    then have "sequence g' \<le> MaxSequence (layout g)"
      by (auto simp: advanced_def genOK_def)
    with adv show ?thesis by (auto simp: advanced_def)
  qed
  have d: "sorted (map (timestampOf (layout g)) (calls n g clk0))"
    using calls_timestamps [OF ok] by simp
  have e: "Timestamp d = timestampOf (layout g) ident" if "Decode ident = Inr d" for ident d
    using that l by (rule timestampOf_Decode)
  have f: "rollbackWait g t clk =
              (case dropWhile (\<lambda>x. currentTimestamp g x < lastTimestamp g) clk of
                 [] \<Rightarrow> None
               | x # rest \<Rightarrow> Some (currentTimestamp g x, rest))"
    if "t < lastTimestamp g"
    using that by (simp add: rollbackWait_dropWhile)
  note h = waitNextTimestamp_dropWhile [of g t clk]
  have first: "(\<forall>e g' clk'. NextID g (now # clk) \<noteq> Some (Inl e, g', clk'))
            \<and> ((\<exists>x \<in> set clk. lastTimestamp g < currentTimestamp g x) \<longrightarrow>
                 (\<exists>ident g' clk'. NextID g (now # clk) = Some (Inr ident, g', clk')))
            \<and> (currentTimestamp g now < lastTimestamp g
                 \<and> (\<forall>x \<in> set clk. currentTimestamp g x < lastTimestamp g) \<longrightarrow>
                 NextID g (now # clk) = None)
            \<and> (sequence g \<noteq> MaxSequence (layout g) \<longrightarrow>
                 (NextID g (now # clk) = None
                    \<longleftrightarrow> (\<forall>x \<in> set (now # clk). currentTimestamp g x < lastTimestamp g)))
            \<and> (sequence g = MaxSequence (layout g) \<longrightarrow>
                 (NextID g (now # clk) = None
                    \<longleftrightarrow> (\<forall>x \<in> set (now # clk). currentTimestamp g x \<le> lastTimestamp g)))
            \<and> (\<forall>r g' clk'. NextID g (now # clk) = Some (r, g', clk') \<longrightarrow>
                 (\<exists>pre x. now # clk = pre @ x # clk'
                    \<and> lastTimestamp g \<le> currentTimestamp g x
                    \<and> (\<forall>y \<in> set pre. currentTimestamp g y \<le> lastTimestamp g)
                    \<and> (sequence g \<noteq> MaxSequence (layout g) \<longrightarrow>
                         (\<forall>y \<in> set pre. currentTimestamp g y < lastTimestamp g))
                    \<and> (sequence g = MaxSequence (layout g) \<longrightarrow>
                         lastTimestamp g < currentTimestamp g x)
                    \<and> g' = g\<lparr>sequence := (if currentTimestamp g x = lastTimestamp g
                                            then (sequence g + 1) AND MaxSequence (layout g)
                                            else 0),
                              lastTimestamp := currentTimestamp g x\<rparr>
                    \<and> r = Inr (encodeID g' (currentTimestamp g x))))"
    if g0: "currentTimestamp g now \<le> MaxTimestamp (layout g)"
  proof (intro conjI allI impI)
    show "NextID g (now # clk) \<noteq> Some (Inl e, g', clk')" for e g' clk'
      using g0 by (rule a)
    show "\<exists>ident g' clk'. NextID g (now # clk) = Some (Inr ident, g', clk')"
      if "\<exists>x \<in> set clk. lastTimestamp g < currentTimestamp g x"
      using g0 that by (rule b)
    show "NextID g (now # clk) = None"
      if "currentTimestamp g now < lastTimestamp g
           \<and> (\<forall>x \<in> set clk. currentTimestamp g x < lastTimestamp g)"
      using g0 that by (rule n0)
    show "NextID g (now # clk) = None
              \<longleftrightarrow> (\<forall>x \<in> set (now # clk). currentTimestamp g x < lastTimestamp g)"
      if "sequence g \<noteq> MaxSequence (layout g)"
      using g0 that by (rule n1)
    show "NextID g (now # clk) = None
              \<longleftrightarrow> (\<forall>x \<in> set (now # clk). currentTimestamp g x \<le> lastTimestamp g)"
      if "sequence g = MaxSequence (layout g)"
      using g0 that by (rule n2)
    show "\<exists>pre x. now # clk = pre @ x # clk'
                    \<and> lastTimestamp g \<le> currentTimestamp g x
                    \<and> (\<forall>y \<in> set pre. currentTimestamp g y \<le> lastTimestamp g)
                    \<and> (sequence g \<noteq> MaxSequence (layout g) \<longrightarrow>
                         (\<forall>y \<in> set pre. currentTimestamp g y < lastTimestamp g))
                    \<and> (sequence g = MaxSequence (layout g) \<longrightarrow>
                         lastTimestamp g < currentTimestamp g x)
                    \<and> g' = g\<lparr>sequence := (if currentTimestamp g x = lastTimestamp g
                                            then (sequence g + 1) AND MaxSequence (layout g)
                                            else 0),
                              lastTimestamp := currentTimestamp g x\<rparr>
                    \<and> r = Inr (encodeID g' (currentTimestamp g x))"
      if "NextID g (now # clk) = Some (r, g', clk')" for r g' clk'
      using g0 that by (rule n3)
  qed
  from first c d e f h show ?thesis by blast
qed

theorem NextID_blocks_never_goes_back_witness:
  "currentTimestamp (testGenerator\<lparr>lastTimestamp := 1000\<rparr>) 1767225600999000000
      \<le> MaxTimestamp (layout (testGenerator\<lparr>lastTimestamp := 1000\<rparr>))
   \<and> currentTimestamp (testGenerator\<lparr>lastTimestamp := 1000\<rparr>) 1767225600999000000
      < lastTimestamp (testGenerator\<lparr>lastTimestamp := 1000\<rparr>)
   \<and> currentTimestamp (testGenerator\<lparr>lastTimestamp := 1000\<rparr>) 1767225600998000000
      < lastTimestamp (testGenerator\<lparr>lastTimestamp := 1000\<rparr>)
   \<and> NextID (testGenerator\<lparr>lastTimestamp := 1000\<rparr>)
          [1767225600999000000, 1767225600998000000] = None
   \<and> lastTimestamp (testGenerator\<lparr>lastTimestamp := 1000\<rparr>)
      < currentTimestamp (testGenerator\<lparr>lastTimestamp := 1000\<rparr>) 1767225601001000000
   \<and> (\<exists>ident g' clk'. NextID (testGenerator\<lparr>lastTimestamp := 1000\<rparr>)
          [1767225600999000000, 1767225600998000000, 1767225601001000000]
          = Some (Inr ident, g', clk'))
   \<and> NextID (testGenerator\<lparr>lastTimestamp := 1000\<rparr>)
          [1767225600999000000, 1767225600998000000, 1767225601001000000]
          = Some (Inr 65601792, testGenerator\<lparr>lastTimestamp := 1001\<rparr>, [])"
proof -
  let ?g = "testGenerator\<lparr>lastTimestamp := 1000\<rparr>"
  have a: "currentTimestamp ?g 1767225600999000000 \<le> MaxTimestamp (layout ?g)"
    by code_simp
  have r1: "currentTimestamp ?g 1767225600999000000 < lastTimestamp ?g"
    by code_simp
  have r2: "currentTimestamp ?g 1767225600998000000 < lastTimestamp ?g"
    by code_simp
  from r2 have r2': "\<forall>x \<in> set [1767225600998000000].
                     currentTimestamp ?g x < lastTimestamp ?g"
    by simp
  from NextID_blocks_never_goes_back [OF reachable_testGenerator_1000,
      of 1767225600999000000 "[1767225600998000000]"] a r1 r2'
  have blocked: "NextID ?g [1767225600999000000, 1767225600998000000] = None"
    by blast
  have b: "lastTimestamp ?g < currentTimestamp ?g 1767225601001000000"
    by code_simp
  then have b': "\<exists>x \<in> set [1767225600998000000, 1767225601001000000].
                  lastTimestamp ?g < currentTimestamp ?g x"
    by simp
  from NextID_blocks_never_goes_back [OF reachable_testGenerator_1000,
      of 1767225600999000000 "[1767225600998000000, 1767225601001000000]"] a b'
  have c: "\<exists>ident g' clk'. NextID ?g [1767225600999000000, 1767225600998000000, 1767225601001000000]
          = Some (Inr ident, g', clk')"
    by blast
  have d: "NextID ?g [1767225600999000000, 1767225600998000000, 1767225601001000000]
          = Some (Inr 65601792, testGenerator\<lparr>lastTimestamp := 1001\<rparr>, [])"
    by code_simp
  from a r1 r2 blocked b c d show ?thesis by blast
qed

text \<open>
  Without that bound the claim fails. After the run of C5 the generator holds a
  \<open>lastTimestamp\<close> beyond \<open>MaxTimestamp\<close>; a clock then set to 2025-10-01 gives a tick
  below \<open>lastTimestamp\<close>, a rollback, and \<open>NextID\<close> does not block: the overflow check
  on the first reading returns the error.
\<close>

theorem NextID_rollback_overflow_error:
  "reachable testConfig (testGenerator\<lparr>lastTimestamp := 18446744068482351616\<rparr>)
   \<and> currentTimestamp (testGenerator\<lparr>lastTimestamp := 18446744068482351616\<rparr>)
         (Date 2025 10 1 0 0 0 0)
       < lastTimestamp (testGenerator\<lparr>lastTimestamp := 18446744068482351616\<rparr>)
   \<and> NextID (testGenerator\<lparr>lastTimestamp := 18446744068482351616\<rparr>)
         [Date 2025 10 1 0 0 0 0, Date 2025 12 1 0 0 0 0]
       = Some (Inl ErrTimestampOverflow,
               testGenerator\<lparr>lastTimestamp := 18446744068482351616\<rparr>,
               [Date 2025 12 1 0 0 0 0])"
proof -
  let ?g = "testGenerator\<lparr>lastTimestamp := 18446744068482351616\<rparr>"
  have "currentTimestamp ?g (Date 2025 10 1 0 0 0 0) < lastTimestamp ?g"
    by code_simp
  moreover have "NextID ?g [Date 2025 10 1 0 0 0 0, Date 2025 12 1 0 0 0 0]
       = Some (Inl ErrTimestampOverflow, ?g, [Date 2025 12 1 0 0 0 0])"
    by code_simp
  ultimately show ?thesis using reachable_testGenerator_before_epoch by blast
qed

text \<open>
  C4. \<open>NextID\<close> fails if and only if the tick of the first reading of the clock exceeds
  \<open>MaxTimestamp\<close> of the layout; it then returns the timestamp-overflow error and
  leaves the generator as it was.
\<close>

theorem NextID_fails_iff_overflow:
  assumes "reachable cfg g"
  shows "((\<exists>e g' clk'. NextID g (now # clk) = Some (Inl e, g', clk'))
            \<longleftrightarrow> MaxTimestamp (layout g) < currentTimestamp g now)
       \<and> (MaxTimestamp (layout g) < currentTimestamp g now
            \<longrightarrow> NextID g (now # clk) = Some (Inl ErrTimestampOverflow, g, clk))"
proof -
  have "\<not> MaxTimestamp (layout g) < currentTimestamp g now \<Longrightarrow>
          NextID g (now # clk) \<noteq> Some (Inl e, g', clk')" for e g' clk'
    by (auto simp: Let_def emit_def split: option.splits if_splits)
  moreover have "MaxTimestamp (layout g) < currentTimestamp g now \<Longrightarrow>
          NextID g (now # clk) = Some (Inl ErrTimestampOverflow, g, clk)"
    by simp
  ultimately show ?thesis by blast
qed

theorem NextID_fails_iff_overflow_witness:
  "MaxTimestamp (layout testGenerator) < currentTimestamp testGenerator 1767225599000000000
   \<and> NextID testGenerator [1767225599000000000, 1767225601000000000]
       = Some (Inl ErrTimestampOverflow, testGenerator, [1767225601000000000])"
proof -
  have "MaxTimestamp (layout testGenerator) < currentTimestamp testGenerator 1767225599000000000"
    by code_simp
  with NextID_fails_iff_overflow [OF reachable_testGenerator, of 1767225599000000000 "[1767225601000000000]"]
  show ?thesis by simp
qed

text \<open>
  C5. The top three bits of an identifier returned by \<open>NextID\<close> should be the version
  of the generator's layout. The overflow check of \<open>NextID\<close> covers the first reading
  of the clock only: a tick read again inside a wait is encoded unchecked. Here the
  second call first reads a clock one second back, waits, and then reads a clock set
  before the epoch; the identifier it returns has 7 in its top three bits, not the
  generator's version 0, and \<open>Decode\<close> rejects it.
\<close>

theorem NextID_version_bits_lost:
  "calls 2 testGenerator [Date 2026 11 1 12 0 0 0, Date 2026 11 1 11 59 59 0, Date 2025 11 1 12 0 0 0]
     = [1724173516800256, 18446401503930351872]
   \<and> fst (extractVersion 1724173516800256) = VersionLayout.Version (layout testGenerator)
   \<and> fst (extractVersion 18446401503930351872) = 7
   \<and> VersionLayout.Version (layout testGenerator) = 0
   \<and> Decode 18446401503930351872 = Inl ErrInvalidVersion"
  by code_simp

text \<open>
  C6. \<open>NewGenerator\<close> fails with \<open>ErrInvalidVersion\<close> exactly when the version is not in
  the registry, with \<open>ErrInvalidNodeID\<close> exactly when the version is registered and the
  node exceeds \<open>MaxNodeID\<close>, and succeeds otherwise. For version 0 it succeeds for
  every node up to 255 and fails for node 256; for version 99 it fails for every node.
\<close>

theorem NewGenerator_result:
  "(NewGenerator cfg = Inl ErrInvalidVersion \<longleftrightarrow> versionLayouts (Config.Version cfg) = None)
   \<and> (NewGenerator cfg = Inl ErrInvalidNodeID \<longleftrightarrow>
        (\<exists>l. versionLayouts (Config.Version cfg) = Some l \<and> Config.NodeID cfg > MaxNodeID l))
   \<and> ((\<exists>g. NewGenerator cfg = Inr g) \<longleftrightarrow>
        (\<exists>l. versionLayouts (Config.Version cfg) = Some l \<and> Config.NodeID cfg \<le> MaxNodeID l))
   \<and> (\<forall>n. n \<le> 255 \<longrightarrow> (\<exists>g. NewGenerator \<lparr>Config.Version = Version0, Config.NodeID = n\<rparr> = Inr g))
   \<and> NewGenerator \<lparr>Config.Version = Version0, Config.NodeID = 256\<rparr> = Inl ErrInvalidNodeID
   \<and> (\<forall>n. NewGenerator \<lparr>Config.Version = 99, Config.NodeID = n\<rparr> = Inl ErrInvalidVersion)"
proof -
  have a: "NewGenerator cfg = Inl ErrInvalidVersion \<longleftrightarrow> versionLayouts (Config.Version cfg) = None"
    by (auto simp: NewGenerator_def Let_def split: option.splits)
  have b: "NewGenerator cfg = Inl ErrInvalidNodeID \<longleftrightarrow>
        (\<exists>l. versionLayouts (Config.Version cfg) = Some l \<and> Config.NodeID cfg > MaxNodeID l)"
    by (auto simp: NewGenerator_def Let_def split: option.splits)
  have c: "(\<exists>g. NewGenerator cfg = Inr g) \<longleftrightarrow>
        (\<exists>l. versionLayouts (Config.Version cfg) = Some l \<and> Config.NodeID cfg \<le> MaxNodeID l)"
    by (auto simp: NewGenerator_def Let_def not_less split: option.splits)
  have d: "\<exists>g. NewGenerator \<lparr>Config.Version = Version0, Config.NodeID = n\<rparr> = Inr g"
    if "n \<le> 255" for n
    using that by (simp add: NewGenerator_def versionLayouts_def Let_def not_less)
  have e: "NewGenerator \<lparr>Config.Version = Version0, Config.NodeID = 256\<rparr> = Inl ErrInvalidNodeID"
    by (simp add: NewGenerator_def versionLayouts_def)
  have f: "NewGenerator \<lparr>Config.Version = 99, Config.NodeID = n\<rparr> = Inl ErrInvalidVersion" for n
    by (simp add: NewGenerator_def versionLayouts_def Version0_def)
  from a b c d e f show ?thesis by blast
qed

theorem NewGenerator_result_witness:
  "(255 :: 64 word) \<le> 255
   \<and> (\<exists>g. NewGenerator \<lparr>Config.Version = Version0, Config.NodeID = 255\<rparr> = Inr g)
   \<and> versionLayouts (Config.Version \<lparr>Config.Version = Version0, Config.NodeID = 255\<rparr>) \<noteq> None
   \<and> NewGenerator \<lparr>Config.Version = Version0, Config.NodeID = 255\<rparr> \<noteq> Inl ErrInvalidVersion"
proof -
  have h: "(255 :: 64 word) \<le> 255" by simp
  have v: "versionLayouts (Config.Version \<lparr>Config.Version = Version0, Config.NodeID = 255\<rparr>) \<noteq> None"
    by (simp add: versionLayouts_def)
  from NewGenerator_result [of "\<lparr>Config.Version = Version0, Config.NodeID = 255\<rparr>"] h v
  show ?thesis by blast
qed

text \<open>
  C7. The time \<open>Decode\<close> returns should be the epoch plus the timestamp times the time
  unit. \<open>Decode\<close> computes the product as a \<open>time.Duration\<close>, a signed 64-bit count of
  nanoseconds, which wraps from 9223372036855 ms on, within the 45 bits of the
  timestamp: for the identifier with timestamp 9223372036855 (and node and sequence 0)
  the time returned lies before the epoch, not 9223372036855 ms after it.
\<close>

theorem Decode_time_wraps:
  "Decode 604462909807329280
     = Inr \<lparr>DecodedID.Version = 0, Timestamp = 9223372036855, NodeID = 0, Sequence = 0,
            Time = - 7456146436854551616\<rparr>
   \<and> Date 2026 1 1 0 0 0 0 + 9223372036855 * 1000000 = 10990597636855000000
   \<and> sint (9223372036855 * 1000000 :: Duration) = - 9223372036854551616
   \<and> (9223372036855 :: 64 word) \<le> 35184372088831"
  by code_simp

text \<open>
  C8. The registry's entry for version 0: 3 version bits, 45 time bits, 8 node bits and
  8 sequence bits (64 in all), a time unit of one millisecond, the epoch
  2026-01-01T00:00:00Z, and the maxima 255, 255 and \<open>2^45 - 1\<close>, each \<open>2^bits - 1\<close>.
\<close>

theorem versionLayouts_Version0:
  "\<exists>l. versionLayouts Version0 = Some l
     \<and> VersionBits l = 3 \<and> TimeBits l = 45 \<and> NodeBits l = 8 \<and> SequenceBits l = 8
     \<and> unat (VersionBits l) + unat (TimeBits l) + unat (NodeBits l) + unat (SequenceBits l) = 64
     \<and> unat (VersionBits l) + unat (TimeBits l) + unat (NodeBits l) + unat (SequenceBits l) \<le> 64
     \<and> TimeUnit l = Millisecond \<and> sint (TimeUnit l) = 1000000
     \<and> Epoch l = Date 2026 1 1 0 0 0 0 \<and> Epoch l = 1767225600 * 1000000000
     \<and> MaxNodeID l = 2 ^ 8 - 1 \<and> MaxNodeID l = 255
     \<and> MaxSequence l = 2 ^ 8 - 1 \<and> MaxSequence l = 255
     \<and> MaxTimestamp l = 2 ^ 45 - 1
     \<and> unat (MaxNodeID l) = 2 ^ unat (NodeBits l) - 1
     \<and> unat (MaxSequence l) = 2 ^ unat (SequenceBits l) - 1
     \<and> unat (MaxTimestamp l) = 2 ^ unat (TimeBits l) - 1"
  by (simp add: versionLayouts_def Millisecond_def Date_epoch)

text \<open>
  C9. In every state of a generator the sequence is at most \<open>MaxSequence\<close>, the layout
  and the node are those \<open>NewGenerator\<close> took from the configuration and the shifts
  those it computed; a call of \<open>NextID\<close> that returns keeps the bound and changes none
  of the layout, the node and the three shifts.
\<close>

theorem Generator_sequence_bounded_fields_fixed:
  assumes "reachable cfg g"
  shows "sequence g \<le> MaxSequence (layout g)
       \<and> versionLayouts (Config.Version cfg) = Some (layout g)
       \<and> nodeID g = Config.NodeID cfg
       \<and> versionShift g = SequenceBits (layout g) + NodeBits (layout g) + TimeBits (layout g)
       \<and> timeShift g = SequenceBits (layout g) + NodeBits (layout g)
       \<and> nodeShift g = SequenceBits (layout g)
       \<and> (\<forall>clk r g' clk'. NextID g clk = Some (r, g', clk') \<longrightarrow>
            sequence g' \<le> MaxSequence (layout g')
            \<and> layout g' = layout g \<and> nodeID g' = nodeID g
            \<and> versionShift g' = versionShift g \<and> timeShift g' = timeShift g
            \<and> nodeShift g' = nodeShift g)"
proof -
  have ok: "genOK g" and l: "versionLayouts (Config.Version cfg) = Some (layout g)"
    and n: "nodeID g = Config.NodeID cfg"
    using assms reachable_genOK by simp_all
  have st: "sequence g' \<le> MaxSequence (layout g')
            \<and> layout g' = layout g \<and> nodeID g' = nodeID g
            \<and> versionShift g' = versionShift g \<and> timeShift g' = timeShift g
            \<and> nodeShift g' = nodeShift g"
    if "NextID g clk = Some (r, g', clk')" for clk r g' clk'
    using NextID_cases [OF ok that] ok by (auto simp: advanced_def genOK_def)
  from ok l n st show ?thesis unfolding genOK_def by blast
qed

theorem Generator_sequence_bounded_fields_fixed_witness:
  "NextID testGenerator [1767225600000000000]
     = Some (Inr 257, testGenerator\<lparr>sequence := 1\<rparr>, [])
   \<and> sequence (testGenerator\<lparr>sequence := 1\<rparr>) \<le> MaxSequence (layout testGenerator)
   \<and> layout (testGenerator\<lparr>sequence := 1\<rparr>) = layout testGenerator
   \<and> nodeID (testGenerator\<lparr>sequence := 1\<rparr>) = Config.NodeID testConfig"
proof -
  have run: "NextID testGenerator [1767225600000000000]
     = Some (Inr 257, testGenerator\<lparr>sequence := 1\<rparr>, [])"
    by code_simp
  have n: "nodeID testGenerator = Config.NodeID testConfig"
    using Generator_sequence_bounded_fields_fixed [OF reachable_testGenerator] by blast
  have "sequence (testGenerator\<lparr>sequence := 1\<rparr>)
          \<le> MaxSequence (layout (testGenerator\<lparr>sequence := 1\<rparr>))
      \<and> layout (testGenerator\<lparr>sequence := 1\<rparr>) = layout testGenerator
      \<and> nodeID (testGenerator\<lparr>sequence := 1\<rparr>) = nodeID testGenerator"
    using Generator_sequence_bounded_fields_fixed [OF reachable_testGenerator] run by blast
  with n run show ?thesis by (simp del: NextID.simps)
qed

text \<open>
  C10. \<open>Decode\<close> checks the version only: it succeeds exactly when the top three bits
  are a registered version, which with this registry is exactly when the identifier is
  below \<open>2^61\<close>, and fails with \<open>ErrInvalidVersion\<close> otherwise. \<open>Decode 0\<close> is version 0,
  tick 0, node 0, sequence 0 at the epoch, although no generator ever returns 0.
\<close>

theorem Decode_validates_only_version:
  "((\<exists>d. Decode ident = Inr d)
      \<longleftrightarrow> (\<exists>l. versionLayouts (ucast (drop_bit 61 ident AND 7)) = Some l))
   \<and> ((\<exists>l. versionLayouts (ucast (drop_bit 61 ident AND 7)) = Some l) \<longleftrightarrow> ident < 2 ^ 61)
   \<and> ((\<exists>d. Decode ident = Inr d) \<or> Decode ident = Inl ErrInvalidVersion)
   \<and> Decode 0 = Inr \<lparr>DecodedID.Version = 0, Timestamp = 0, NodeID = 0, Sequence = 0,
                      Time = Date 2026 1 1 0 0 0 0\<rparr>
   \<and> (\<forall>cfg g clk g' clk'. reachable cfg g \<longrightarrow> NextID g clk \<noteq> Some (Inr 0, g', clk'))"
proof -
  have a: "(\<exists>d. Decode ident = Inr d)
      \<longleftrightarrow> (\<exists>l. versionLayouts (ucast (drop_bit 61 ident AND 7)) = Some l)"
    by (auto simp: Decode_def extractVersion_def Let_def split: option.splits)
  have b: "(\<exists>l. versionLayouts (ucast (drop_bit 61 ident AND 7)) = Some l) \<longleftrightarrow> ident < 2 ^ 61"
    by (simp add: registered_iff top_bits_zero_iff)
  have c: "(\<exists>d. Decode ident = Inr d) \<or> Decode ident = Inl ErrInvalidVersion"
    by (auto simp: Decode_def extractVersion_def Let_def split: option.splits)
  have d: "Decode 0 = Inr \<lparr>DecodedID.Version = 0, Timestamp = 0, NodeID = 0, Sequence = 0,
                      Time = Date 2026 1 1 0 0 0 0\<rparr>"
    by (simp add: Decode_def extractVersion_def versionLayouts_def Version0_def Add_def)
  have e: "NextID g clk \<noteq> Some (Inr 0, g', clk')" if "reachable cfg g" for cfg g clk g' clk'
  proof
    assume run: "NextID g clk = Some (Inr 0, g', clk')"
    have ok: "genOK g" using that reachable_genOK by simp
    from NextID_cases [OF ok run] have "encodeID g' (lastTimestamp g') = 0" "advanced g g'"
      by simp_all
    with encode_less [OF ok, of g'] show False by (auto simp: advanced_def)
  qed
  from a b c d e show ?thesis by blast
qed

theorem Decode_validates_only_version_witness:
  "(\<exists>d. Decode 2305843009213693951 = Inr d) \<and> (2305843009213693951 :: 64 word) < 2 ^ 61
   \<and> Decode 2305843009213693952 = Inl ErrInvalidVersion
   \<and> NextID testGenerator [1767225600000000000] \<noteq> Some (Inr 0, testGenerator, [])"
proof -
  have a: "(2305843009213693951 :: 64 word) < 2 ^ 61" by simp
  have b: "\<not> (2305843009213693952 :: 64 word) < 2 ^ 61" by simp
  from Decode_validates_only_version [of 2305843009213693951] a
  have c: "\<exists>d. Decode 2305843009213693951 = Inr d" by blast
  from Decode_validates_only_version [of 2305843009213693952] b
  have d: "Decode 2305843009213693952 = Inl ErrInvalidVersion" by blast
  from Decode_validates_only_version [of 0] reachable_testGenerator
  have e: "NextID testGenerator [1767225600000000000] \<noteq> Some (Inr 0, testGenerator, [])"
    by blast
  from a c d e show ?thesis by blast
qed

end
